theory Spec2Isabelle
  imports Complex_Main
begin

section \<open>The Consciousness Emergence Game\<close>

text \<open>
  A shallow embedding of \<^verbatim>\<open>competitions/game_implementation/consciousness_emergence_game.py\<close>.
  Python floats are modelled as reals, Python ints as \<open>int\<close> (coordinates) or \<open>nat\<close>
  (neuron ids, which only ever come from \<^verbatim>\<open>len(self.neurons)\<close>), exceptions as values of
  \<open>py_error\<close>, and mutation of \<^verbatim>\<open>self\<close> as explicit state passing.
\<close>

subsection \<open>Python building blocks\<close>

datatype py_error = IndexError | KeyError | ZeroDivisionError

text \<open>
  List subscripts: an index from \<open>0\<close> to \<open>len - 1\<close> is taken as it is, one from \<open>-len\<close>
  to \<open>-1\<close> counts from the end, and any other raises \<^verbatim>\<open>IndexError\<close>.
\<close>

definition norm_index :: "nat \<Rightarrow> int \<Rightarrow> nat option" where
  "norm_index len i =
     (if 0 \<le> i \<and> i < int len then Some (nat i)
      else if - int len \<le> i \<and> i < 0 then Some (nat (int len + i))
      else None)"

text \<open>\<^verbatim>\<open>xs[i]\<close> and \<^verbatim>\<open>xs[i] = v\<close>.\<close>

definition py_index :: "'a list \<Rightarrow> int \<Rightarrow> py_error + 'a" where
  "py_index xs i =
     (case norm_index (length xs) i of
        None \<Rightarrow> Inl IndexError
      | Some j \<Rightarrow> Inr (xs ! j))"

definition py_setitem :: "'a list \<Rightarrow> int \<Rightarrow> 'a \<Rightarrow> py_error + 'a list" where
  "py_setitem xs i v =
     (case norm_index (length xs) i of
        None \<Rightarrow> Inl IndexError
      | Some j \<Rightarrow> Inr (xs[j := v]))"

text \<open>
  A \<^verbatim>\<open>dict\<close> whose iteration order matters is an association list in insertion order;
  \<^verbatim>\<open>d[k] = v\<close> replaces the value of a key in place or appends a new key.
\<close>

fun dict_set :: "('k \<times> 'v) list \<Rightarrow> 'k \<Rightarrow> 'v \<Rightarrow> ('k \<times> 'v) list" where
  "dict_set [] k v = [(k, v)]"
| "dict_set ((k', v') # kvs) k v =
     (if k' = k then (k, v) # kvs else (k', v') # dict_set kvs k v)"

text \<open>
  \<^verbatim>\<open>str.upper()\<close> on ASCII text: the letters a to z (codes 97 to 122) move to A to Z,
  which clears the bit of value 32; every other character stays. Only the characters
  below 128 stand for Python characters: \<^verbatim>\<open>str.upper()\<close> also maps letters outside ASCII
  (sharp s to \<^verbatim>\<open>SS\<close>, long s to \<^verbatim>\<open>S\<close>, dotless i to \<^verbatim>\<open>I\<close>), which a \<open>char\<close> cannot
  hold, so what is stated about a type name is stated for names that satisfy \<open>ascii\<close>.
\<close>

definition upper_char :: "char \<Rightarrow> char" where
  "upper_char c =
     (if (97::nat) \<le> of_char c \<and> of_char c \<le> (122::nat)
      then (case c of Char b0 b1 b2 b3 b4 b5 b6 b7 \<Rightarrow> Char b0 b1 b2 b3 b4 False b6 b7)
      else c)"

definition upper :: "string \<Rightarrow> string" where
  "upper s = map upper_char s"

definition ascii :: "string \<Rightarrow> bool" where
  "ascii s = list_all (\<lambda>c. of_char c < (128::nat)) s"

text \<open>\<^verbatim>\<open>np.mean\<close> and \<^verbatim>\<open>np.var\<close> (the population variance) of a list of floats.\<close>

definition np_mean :: "real list \<Rightarrow> real" where
  "np_mean xs = sum_list xs / real (length xs)"

definition np_var :: "real list \<Rightarrow> real" where
  "np_var xs = np_mean (map (\<lambda>v. (v - np_mean xs)\<^sup>2) xs)"

subsection \<open>Neurons\<close>

datatype NeuronType = SENSOR | PROCESSOR | MEMORY | CONNECTOR | OSCILLATOR

text \<open>\<^verbatim>\<open>NeuronType[name]\<close>: the member of that name, or \<^verbatim>\<open>KeyError\<close>.\<close>

definition NeuronType_getitem :: "string \<Rightarrow> py_error + NeuronType" where
  "NeuronType_getitem name =
     (if name = ''SENSOR'' then Inr SENSOR
      else if name = ''PROCESSOR'' then Inr PROCESSOR
      else if name = ''MEMORY'' then Inr MEMORY
      else if name = ''CONNECTOR'' then Inr CONNECTOR
      else if name = ''OSCILLATOR'' then Inr OSCILLATOR
      else Inl KeyError)"

text \<open>\<^verbatim>\<open>NeuronType.value\<close>.\<close>

fun NeuronType_value :: "NeuronType \<Rightarrow> string" where
  "NeuronType_value SENSOR = ''sensor''"
| "NeuronType_value PROCESSOR = ''processor''"
| "NeuronType_value MEMORY = ''memory''"
| "NeuronType_value CONNECTOR = ''connector''"
| "NeuronType_value OSCILLATOR = ''oscillator''"

record Neuron =
  id_n :: nat
  x_n :: int
  y_n :: int
  type_n :: NeuronType
  processing_power :: real
  connections :: "nat list"
  activation :: real
  memory_state :: real

text \<open>\<^verbatim>\<open>Neuron.can_connect\<close> with its default \<^verbatim>\<open>max_distance = 5.0\<close>.\<close>

definition can_connect :: "Neuron \<Rightarrow> Neuron \<Rightarrow> bool" where
  "can_connect self other =
     (let distance = sqrt (real_of_int ((x_n self - x_n other)\<^sup>2 + (y_n self - y_n other)\<^sup>2))
      in distance \<le> 5.0 \<and> id_n other \<notin> set (connections self))"

subsection \<open>The connection graph\<close>

text \<open>
  The \<^verbatim>\<open>networkx.Graph\<close> the grid owns: its nodes in insertion order, each with its
  optional \<^verbatim>\<open>player\<close> attribute, and its undirected edges in insertion order.
\<close>

record Graph =
  nodes :: "(nat \<times> string option) list"
  edges :: "(nat \<times> nat) list"

definition empty_graph :: Graph where
  "empty_graph = \<lparr>nodes = [], edges = []\<rparr>"

definition has_node :: "Graph \<Rightarrow> nat \<Rightarrow> bool" where
  "has_node G v = (v \<in> fst ` set (nodes G))"

definition has_edge :: "Graph \<Rightarrow> nat \<Rightarrow> nat \<Rightarrow> bool" where
  "has_edge G u v = ((u, v) \<in> set (edges G) \<or> (v, u) \<in> set (edges G))"

text \<open>\<^verbatim>\<open>G.add_node(v, player=p)\<close>: a new node, or a new attribute value on an old one.\<close>

definition add_node :: "nat \<Rightarrow> string \<Rightarrow> Graph \<Rightarrow> Graph" where
  "add_node v p G = G\<lparr>nodes := dict_set (nodes G) v (Some p)\<rparr>"

text \<open>\<^verbatim>\<open>G.add_edge(u, v)\<close>: both ends become nodes if they are not, then the edge is added
  unless it is there already.\<close>

definition ensure_node :: "nat \<Rightarrow> Graph \<Rightarrow> Graph" where
  "ensure_node v G = (if has_node G v then G else G\<lparr>nodes := nodes G @ [(v, None)]\<rparr>)"

definition add_edge :: "nat \<Rightarrow> nat \<Rightarrow> Graph \<Rightarrow> Graph" where
  "add_edge u v G =
     (let G' = ensure_node v (ensure_node u G)
      in if has_edge G' u v then G' else G'\<lparr>edges := edges G' @ [(u, v)]\<rparr>)"

definition number_of_nodes :: "Graph \<Rightarrow> nat" where
  "number_of_nodes G = length (nodes G)"

definition number_of_edges :: "Graph \<Rightarrow> nat" where
  "number_of_edges G = length (edges G)"

subsection \<open>The grid and placement\<close>

datatype PatternType = Loop | Synchronization | Hierarchy | StrangeAttractor

record Pattern =
  type_p :: PatternType
  nodes_p :: "nat list"
  strength :: real

text \<open>
  \<^verbatim>\<open>ConsciousnessGrid\<close>. A cell of \<open>grid\<close> holds \<^verbatim>\<open>None\<close> or a reference to a neuron
  object that is also a value of the registry \<open>neurons\<close>; the reference is modelled by
  the neuron's registry key.
\<close>

record ConsciousnessGrid =
  size_g :: nat
  grid :: "nat option list list"
  neurons :: "(nat \<times> Neuron) list"
  network :: Graph
  consciousness_level :: real
  emergence_patterns :: "Pattern list"

definition ConsciousnessGrid_init :: "nat \<Rightarrow> ConsciousnessGrid" where
  "ConsciousnessGrid_init n =
     \<lparr>size_g = n, grid = replicate n (replicate n None), neurons = [],
      network = empty_graph, consciousness_level = 0.0, emergence_patterns = []\<rparr>"

text \<open>
  The auto-connect loop of \<^verbatim>\<open>place_neuron\<close> over \<^verbatim>\<open>self.neurons.items()\<close>. Each
  iteration may append to the new neuron's list, append to the list of the registry
  entry under iteration (in place), add an edge and count. The function returns the
  registry entries as the loop leaves them, the new neuron, the graph and the counter.
\<close>

fun connect_loop ::
  "(nat \<times> Neuron) list \<Rightarrow> Neuron \<Rightarrow> Graph \<Rightarrow> nat
     \<Rightarrow> (nat \<times> Neuron) list \<times> Neuron \<times> Graph \<times> nat" where
  "connect_loop [] neuron G made = ([], neuron, G, made)"
| "connect_loop ((nid, n) # rest) neuron G made =
     (if can_connect neuron n \<and> made < 4 then
        (case connect_loop rest
                (neuron\<lparr>connections := connections neuron @ [nid]\<rparr>)
                (add_edge (id_n neuron) nid G) (made + 1) of
           (rest', neuron', G', made') \<Rightarrow>
             ((nid, n\<lparr>connections := connections n @ [id_n neuron]\<rparr>) # rest', neuron', G', made'))
      else
        (case connect_loop rest neuron G made of
           (rest', neuron', G', made') \<Rightarrow> ((nid, n) # rest', neuron', G', made')))"

text \<open>
  \<^verbatim>\<open>place_neuron\<close>. \<open>Inl\<close> is an exception raised by \<^verbatim>\<open>self.grid[x][y]\<close> before
  anything is written; \<open>Inr (None, g)\<close> is the \<^verbatim>\<open>return None\<close> of an occupied cell.
\<close>

definition place_neuron ::
  "int \<Rightarrow> int \<Rightarrow> NeuronType \<Rightarrow> real \<Rightarrow> string \<Rightarrow> ConsciousnessGrid
     \<Rightarrow> py_error + (Neuron option \<times> ConsciousnessGrid)" where
  "place_neuron x y neuron_type pw player_id g =
     (case py_index (grid g) x of
        Inl e \<Rightarrow> Inl e
      | Inr row \<Rightarrow>
         (case py_index row y of
            Inl e \<Rightarrow> Inl e
          | Inr (Some occupant) \<Rightarrow> Inr (None, g)
          | Inr None \<Rightarrow>
             (let neuron_id = length (neurons g);
                  neuron = \<lparr>id_n = neuron_id, x_n = x, y_n = y, type_n = neuron_type,
                            processing_power = pw, connections = [],
                            activation = 0.0, memory_state = 0.0\<rparr>
              in case connect_loop (neurons g) neuron (network g) 0 of
                   (regs, neuron', G, made) \<Rightarrow>
                     (case py_setitem row y (Some neuron_id) of
                        Inl e \<Rightarrow> Inl e
                      | Inr row' \<Rightarrow>
                         (case py_setitem (grid g) x row' of
                            Inl e \<Rightarrow> Inl e
                          | Inr cells \<Rightarrow>
                              Inr (Some neuron',
                                   g\<lparr>neurons := dict_set regs neuron_id neuron',
                                     grid := cells,
                                     network := add_node neuron_id player_id G\<rparr>))))))"

subsection \<open>The activation step\<close>

text \<open>The inner loop of \<^verbatim>\<open>simulate_step\<close>: the weighted input of one neuron.\<close>

definition input_sum :: "(nat \<times> Neuron) list \<Rightarrow> Neuron \<Rightarrow> real" where
  "input_sum regs neuron =
     foldl (\<lambda>acc conn_id.
              case map_of regs conn_id of
                None \<Rightarrow> acc
              | Some conn_neuron \<Rightarrow>
                  acc + activation conn_neuron *
                    (1.0 / (1.0 + \<bar>processing_power neuron - processing_power conn_neuron\<bar>)))
           0.0 (connections neuron)"

text \<open>Python's \<^verbatim>\<open>%\<close> on floats with a positive divisor.\<close>

definition py_fmod :: "real \<Rightarrow> real \<Rightarrow> real" where
  "py_fmod a b = a - b * of_int \<lfloor>a / b\<rfloor>"

text \<open>
  The body of the first loop for one neuron: its new activation, and the neuron as the
  loop leaves it (a \<^verbatim>\<open>MEMORY\<close> neuron has its \<^verbatim>\<open>memory_state\<close> rewritten at once).
\<close>

definition step_neuron :: "real \<Rightarrow> (nat \<times> Neuron) list \<Rightarrow> Neuron \<Rightarrow> real \<times> Neuron" where
  "step_neuron level regs neuron =
     (let s = input_sum regs neuron in
      case type_n neuron of
        PROCESSOR \<Rightarrow> (tanh (s * processing_power neuron / 10.0), neuron)
      | MEMORY \<Rightarrow>
          (let m = 0.9 * memory_state neuron + 0.1 * s
           in (tanh m, neuron\<lparr>memory_state := m\<rparr>))
      | OSCILLATOR \<Rightarrow>
          (let phase = py_fmod (level * 2 * pi) (2 * pi) in (sin phase * s, neuron))
      | _ \<Rightarrow> (tanh s, neuron))"

text \<open>
  \<^verbatim>\<open>simulate_step\<close>: the first loop reads only activations and processing powers, which
  it does not write, so every neuron is stepped against the registry of the state before;
  the second loop commits the new activations.
\<close>

definition simulate_step :: "ConsciousnessGrid \<Rightarrow> ConsciousnessGrid" where
  "simulate_step g =
     (let new_activations =
            map (\<lambda>(nid, neuron). (nid, step_neuron (consciousness_level g) (neurons g) neuron))
                (neurons g)
      in g\<lparr>neurons := map (\<lambda>(nid, (a, neuron')). (nid, neuron'\<lparr>activation := a\<rparr>))
                           new_activations\<rparr>)"

subsection \<open>Pattern detection and scoring\<close>

text \<open>
  The three functions of the networkx library the grid calls are parameters of the model.
  \<open>simple_cycles\<close> returns \<open>None\<close> when the call raises (networkx before 3.1 refuses
  undirected graphs); \<open>betweenness_centrality\<close> returns the dictionary from nodes to
  their centrality; \<open>average_clustering\<close> is the value on a graph that has nodes.
\<close>

record nx_lib =
  simple_cycles :: "Graph \<Rightarrow> nat list list option"
  betweenness_centrality :: "Graph \<Rightarrow> (nat \<times> real) list"
  average_clustering :: "Graph \<Rightarrow> real"

text \<open>\<^verbatim>\<open>nx.average_clustering\<close> divides by the number of nodes.\<close>

definition nx_average_clustering :: "nx_lib \<Rightarrow> Graph \<Rightarrow> py_error + real" where
  "nx_average_clustering lib G =
     (if number_of_nodes G = 0 then Inl ZeroDivisionError else Inr (average_clustering lib G))"

text \<open>
  Pattern 1. The loop over the cycles runs inside \<^verbatim>\<open>try\<close>: a \<^verbatim>\<open>KeyError\<close> of
  \<^verbatim>\<open>self.neurons[nid]\<close> ends it, and the patterns appended so far stay.
\<close>

fun loop_patterns :: "(nat \<times> Neuron) list \<Rightarrow> nat list list \<Rightarrow> Pattern list \<Rightarrow> Pattern list" where
  "loop_patterns regs [] patterns = patterns"
| "loop_patterns regs (cycle # cycles) patterns =
     (if length cycle \<ge> 3 then
        (case those (map (map_of regs) cycle) of
           None \<Rightarrow> patterns
         | Some members \<Rightarrow>
             (let cycle_strength = sum_list (map activation members) / real (length cycle)
              in if cycle_strength > 0.5
                 then loop_patterns regs cycles
                        (patterns @ [\<lparr>type_p = Loop, nodes_p = cycle, strength = cycle_strength\<rparr>])
                 else loop_patterns regs cycles patterns))
      else loop_patterns regs cycles patterns)"

text \<open>Pattern 2: the list \<^verbatim>\<open>sync_groups\<close> that the detector builds.\<close>

definition sync_group :: "(nat \<times> Neuron) list \<Rightarrow> nat \<times> Neuron \<Rightarrow> nat list" where
  "sync_group regs e =
     fst e # map fst (filter (\<lambda>(nid2, n2). fst e \<noteq> nid2 \<and>
                                 \<bar>activation (snd e) - activation n2\<bar> < 0.1) regs)"

definition sync_groups :: "(nat \<times> Neuron) list \<Rightarrow> Pattern list" where
  "sync_groups regs =
     concat (map (\<lambda>e. let group = sync_group regs e in
                       if length group \<ge> 3
                       then [\<lparr>type_p = Synchronization, nodes_p = group,
                              strength = np_mean (map (\<lambda>nid. activation (the (map_of regs nid))) group)\<rparr>]
                       else []) regs)"

text \<open>Pattern 3.\<close>

definition hierarchy_patterns :: "nx_lib \<Rightarrow> ConsciousnessGrid \<Rightarrow> Pattern list" where
  "hierarchy_patterns lib g =
     (if length (neurons g) > 10 then
        (let centrality = betweenness_centrality lib (network g);
             hubs = map fst (filter (\<lambda>(nid, cent). cent > 0.1) centrality)
         in if length hubs \<ge> 2
            then [\<lparr>type_p = Hierarchy, nodes_p = hubs,
                   strength = np_mean (map (\<lambda>nid. the (map_of centrality nid)) hubs)\<rparr>]
            else [])
      else [])"

text \<open>Pattern 4.\<close>

definition attractor_patterns :: "ConsciousnessGrid \<Rightarrow> Pattern list" where
  "attractor_patterns g =
     (let activation_history = map (\<lambda>(nid, n). activation n) (neurons g)
      in if length activation_history > 5 then
           (let variance = np_var activation_history
            in if 0.1 < variance \<and> variance < 0.5
               then [\<lparr>type_p = StrangeAttractor, nodes_p = map fst (neurons g),
                      strength = 1.0 - \<bar>variance - 0.3\<bar>\<rparr>]
               else [])
         else [])"

text \<open>
  \<^verbatim>\<open>detect_consciousness_patterns\<close>. The source builds \<^verbatim>\<open>sync_groups\<close> and returns
  \<^verbatim>\<open>patterns\<close>, to which the groups are never added.
\<close>

definition detect_consciousness_patterns :: "nx_lib \<Rightarrow> ConsciousnessGrid \<Rightarrow> Pattern list" where
  "detect_consciousness_patterns lib g =
     (let patterns = (case simple_cycles lib (network g) of
                        None \<Rightarrow> []
                      | Some cycles \<Rightarrow> loop_patterns (neurons g) cycles []);
          groups = sync_groups (neurons g);
          patterns = patterns @ hierarchy_patterns lib g;
          patterns = patterns @ attractor_patterns g
      in patterns)"

text \<open>
  \<^verbatim>\<open>calculate_consciousness_level\<close>: the value returned and the grid with the two cached
  fields, or the exception of the clustering call.
\<close>

definition calculate_consciousness_level ::
  "nx_lib \<Rightarrow> ConsciousnessGrid \<Rightarrow> py_error + (real \<times> ConsciousnessGrid)" where
  "calculate_consciousness_level lib g =
     (if length (neurons g) < 5 then Inr (0.0, g)
      else
        (let patterns = detect_consciousness_patterns lib g;
             complexity_score = min 1.0 (real (length (neurons g)) / 50.0) * 0.2;
             pattern_types = set (map type_p patterns);
             diversity_score = real (card pattern_types) / 4.0 * 0.3;
             strength_score = (if patterns \<noteq> [] then np_mean (map strength patterns) * 0.3
                               else 0.0)
         in case (if length (neurons g) > 1
                  then (case nx_average_clustering lib (network g) of
                          Inl e \<Rightarrow> Inl e | Inr c \<Rightarrow> Inr (c * 0.2))
                  else Inr 0.0) of
              Inl e \<Rightarrow> Inl e
            | Inr integration \<Rightarrow>
                (let level = complexity_score + diversity_score + strength_score + integration
                 in Inr (level, g\<lparr>consciousness_level := level,
                                  emergence_patterns := patterns\<rparr>))))"

subsection \<open>The game controller\<close>

record PlayerInfo =
  type_pl :: string
  neurons_placed :: nat
  consciousness_achieved :: bool
  peak_consciousness :: real

record Game =
  grid_G :: ConsciousnessGrid
  players :: "string \<rightharpoonup> PlayerInfo"
  turn :: nat
  max_turns :: nat
  winner :: "string option"

definition Game_init :: Game where
  "Game_init =
     \<lparr>grid_G = ConsciousnessGrid_init 19, players = Map.empty, turn = 0, max_turns = 100,
      winner = None\<rparr>"

definition add_player :: "string \<Rightarrow> string \<Rightarrow> Game \<Rightarrow> Game" where
  "add_player player_id player_type s =
     s\<lparr>players := (players s)(player_id \<mapsto>
          \<lparr>type_pl = player_type, neurons_placed = 0, consciousness_achieved = False,
           peak_consciousness = 0.0\<rparr>)\<rparr>"

text \<open>The move dictionary: \<^verbatim>\<open>processing_power\<close> is the one key read with a default.\<close>

record Move =
  x_m :: int
  y_m :: int
  type_m :: string
  processing_power_m :: "real option"

datatype TurnResult =
    GameOver string
  | InvalidMove string
  | Win string real "Pattern list"
  | Continue real "Pattern list" nat

text \<open>\<^verbatim>\<open>if self.winner:\<close> tests truthiness: \<^verbatim>\<open>None\<close> and the empty string are false.\<close>

fun truthy :: "string option \<Rightarrow> bool" where
  "truthy None = False"
| "truthy (Some w) = (w \<noteq> [])"

text \<open>The settling window \<^verbatim>\<open>for _ in range(5): self.grid.simulate_step()\<close>.\<close>

definition settle :: "ConsciousnessGrid \<Rightarrow> ConsciousnessGrid" where
  "settle g = (simulate_step ^^ 5) g"

text \<open>
  \<^verbatim>\<open>play_turn\<close>: what the call returns or raises, and the session it leaves behind.
\<close>

definition play_turn :: "nx_lib \<Rightarrow> string \<Rightarrow> Move \<Rightarrow> Game \<Rightarrow> (py_error + TurnResult) \<times> Game" where
  "play_turn lib player_id move s =
     (if truthy (winner s) then (Inr (GameOver (the (winner s))), s)
      else
        (case NeuronType_getitem (upper (type_m move)) of
           Inl e \<Rightarrow> (Inl e, s)
         | Inr neuron_type \<Rightarrow>
            (let pw = (case processing_power_m move of None \<Rightarrow> 5.0 | Some v \<Rightarrow> v) in
             case place_neuron (x_m move) (y_m move) neuron_type pw player_id (grid_G s) of
               Inl e \<Rightarrow> (Inl e, s)
             | Inr (None, g) \<Rightarrow> (Inr (InvalidMove ''position_occupied''), s\<lparr>grid_G := g\<rparr>)
             | Inr (Some neuron, g) \<Rightarrow>
                (case players s player_id of
                   None \<Rightarrow> (Inl KeyError, s\<lparr>grid_G := g\<rparr>)
                 | Some info \<Rightarrow>
                    (let info = info\<lparr>neurons_placed := neurons_placed info + 1\<rparr>;
                         g = settle g
                     in case calculate_consciousness_level lib g of
                          Inl e \<Rightarrow> (Inl e, s\<lparr>grid_G := g, players := (players s)(player_id \<mapsto> info)\<rparr>)
                        | Inr (consciousness, g) \<Rightarrow>
                           (let info = info\<lparr>peak_consciousness :=
                                              max (peak_consciousness info) consciousness\<rparr>
                            in if consciousness \<ge> 0.8 then
                                 (Inr (Win player_id consciousness (emergence_patterns g)),
                                  s\<lparr>grid_G := g,
                                    players := (players s)(player_id \<mapsto>
                                                 info\<lparr>consciousness_achieved := True\<rparr>),
                                    winner := Some player_id\<rparr>)
                               else
                                 (Inr (Continue consciousness (emergence_patterns g) (turn s + 1)),
                                  s\<lparr>grid_G := g,
                                    players := (players s)(player_id \<mapsto> info),
                                    turn := turn s + 1\<rparr>)))))))"

subsection \<open>The state export\<close>

record NeuronExport =
  x_e :: int
  y_e :: int
  type_e :: string
  activation_e :: real
  connections_e :: "nat list"

record NetworkStats =
  nodes_s :: nat
  edges_s :: nat
  clustering_s :: real

record GameState =
  grid_state :: "nat list list"
  neurons_e :: "(nat \<times> NeuronExport) list"
  consciousness_level_e :: real
  patterns_e :: "Pattern list"
  network_stats :: NetworkStats

definition export_neuron :: "Neuron \<Rightarrow> NeuronExport" where
  "export_neuron n =
     \<lparr>x_e = x_n n, y_e = y_n n, type_e = NeuronType_value (type_n n),
      activation_e = activation n, connections_e = connections n\<rparr>"

definition get_game_state :: "nx_lib \<Rightarrow> Game \<Rightarrow> GameState" where
  "get_game_state lib s =
     \<lparr>grid_state = map (map (\<lambda>cell. if cell \<noteq> None then 1 else 0)) (grid (grid_G s)),
      neurons_e = map (\<lambda>(nid, n). (nid, export_neuron n)) (neurons (grid_G s)),
      consciousness_level_e = consciousness_level (grid_G s),
      patterns_e = emergence_patterns (grid_G s),
      network_stats =
        \<lparr>nodes_s = number_of_nodes (network (grid_G s)),
         edges_s = number_of_edges (network (grid_G s)),
         clustering_s = (if number_of_nodes (network (grid_G s)) > 0
                         then average_clustering lib (network (grid_G s)) else 0)\<rparr>\<rparr>"

subsection \<open>A reference instance of the library\<close>

text \<open>
  The library functions as networkx documents them, on the graph model above:
  \<^verbatim>\<open>simple_cycles\<close> raises on an undirected graph (the behaviour before networkx 3.1),
  the local clustering coefficient of a node is the number of ordered pairs of adjacent
  neighbours over \<open>d (d - 1)\<close>, and the normalised betweenness of a node is the share
  of shortest paths through it, summed over the ordered pairs of other nodes and divided
  by \<open>(n - 1) (n - 2)\<close>. Shortest paths are counted as walks of minimal length.
\<close>

definition node_list :: "Graph \<Rightarrow> nat list" where
  "node_list G = remdups (map fst (nodes G))"

definition nbrs :: "Graph \<Rightarrow> nat \<Rightarrow> nat list" where
  "nbrs G v = filter (\<lambda>u. u \<noteq> v \<and> has_edge G v u) (node_list G)"

definition triangles2 :: "Graph \<Rightarrow> nat \<Rightarrow> nat" where
  "triangles2 G v =
     sum_list (map (\<lambda>w. length (filter (\<lambda>u. u \<noteq> w \<and> has_edge G w u) (nbrs G v))) (nbrs G v))"

definition clustering :: "Graph \<Rightarrow> nat \<Rightarrow> real" where
  "clustering G v =
     (let d = length (nbrs G v); t = triangles2 G v
      in if t = 0 then 0 else real t / real (d * (d - 1)))"

definition ref_average_clustering :: "Graph \<Rightarrow> real" where
  "ref_average_clustering G =
     sum_list (map (clustering G) (node_list G)) / real (length (node_list G))"

fun walks :: "Graph \<Rightarrow> nat \<Rightarrow> nat \<Rightarrow> nat \<Rightarrow> nat" where
  "walks G 0 s t = (if s = t then 1 else 0)"
| "walks G (Suc k) s t = sum_list (map (\<lambda>u. walks G k u t) (nbrs G s))"

definition dist :: "Graph \<Rightarrow> nat \<Rightarrow> nat \<Rightarrow> nat option" where
  "dist G s t = find (\<lambda>k. walks G k s t > 0) [0..<length (node_list G)]"

definition pair_dependency :: "Graph \<Rightarrow> nat \<Rightarrow> nat \<Rightarrow> nat \<Rightarrow> real" where
  "pair_dependency G v s t =
     (case (dist G s t, dist G s v, dist G v t) of
        (Some d, Some a, Some b) \<Rightarrow>
          if a + b = d then real (walks G a s v * walks G b v t) / real (walks G d s t) else 0
      | _ \<Rightarrow> 0)"

definition ref_betweenness_centrality :: "Graph \<Rightarrow> (nat \<times> real) list" where
  "ref_betweenness_centrality G =
     (let V = node_list G; n = length V;
          scale = (if n > 2 then 1 / real ((n - 1) * (n - 2)) else 1)
      in map (\<lambda>v. (v, scale *
                sum_list (map (\<lambda>s. sum_list (map (pair_dependency G v s)
                                                  (filter (\<lambda>t. t \<noteq> v \<and> t \<noteq> s) V)))
                              (filter (\<lambda>s. s \<noteq> v) V)))) V)"

definition networkx_ref :: nx_lib where
  "networkx_ref =
     \<lparr>simple_cycles = (\<lambda>G. None),
      betweenness_centrality = ref_betweenness_centrality,
      average_clustering = ref_average_clustering\<rparr>"

text \<open>The documented ranges of the two numeric library functions.\<close>

definition nx_contract :: "nx_lib \<Rightarrow> bool" where
  "nx_contract lib =
     (\<forall>G. 0 \<le> average_clustering lib G \<and> average_clustering lib G \<le> 1 \<and>
          list_all (\<lambda>(v, c). 0 \<le> c \<and> c \<le> 1) (betweenness_centrality lib G))"

subsection \<open>Well-formed and reachable states\<close>

text \<open>The grid is square: \<open>size_g\<close> rows of \<open>size_g\<close> cells.\<close>

definition wf_grid :: "ConsciousnessGrid \<Rightarrow> bool" where
  "wf_grid g = (length (grid g) = size_g g \<and> list_all (\<lambda>row. length row = size_g g) (grid g))"

text \<open>
  The grids that the constructor and the three mutating methods produce, and the sessions
  that the constructor, \<^verbatim>\<open>add_player\<close> and \<^verbatim>\<open>play_turn\<close> produce (a call that raises
  leaves the session as it was at the raise).
\<close>

inductive reachable_grid :: "nx_lib \<Rightarrow> ConsciousnessGrid \<Rightarrow> bool" for lib where
  init: "reachable_grid lib (ConsciousnessGrid_init n)"
| place: "reachable_grid lib g \<Longrightarrow> place_neuron x y t pw pid g = Inr (r, g')
            \<Longrightarrow> reachable_grid lib g'"
| step: "reachable_grid lib g \<Longrightarrow> reachable_grid lib (simulate_step g)"
| score: "reachable_grid lib g \<Longrightarrow> calculate_consciousness_level lib g = Inr (c, g')
            \<Longrightarrow> reachable_grid lib g'"

inductive reachable :: "nx_lib \<Rightarrow> Game \<Rightarrow> bool" for lib where
  new: "reachable lib Game_init"
| player: "reachable lib s \<Longrightarrow> reachable lib (add_player pid ptype s)"
| turn: "reachable lib s \<Longrightarrow> reachable lib (snd (play_turn lib pid mv s))"

subsection \<open>Invariants of reachable grids\<close>

text \<open>Registry keys are the ids \<open>0, 1, \<dots>\<close> in order.\<close>

definition keys_ok :: "ConsciousnessGrid \<Rightarrow> bool" where
  "keys_ok g = (map fst (neurons g) = [0..<length (neurons g)])"

text \<open>
  Every connection is mutual and mirrored by a graph edge.
\<close>

definition symmetric :: "ConsciousnessGrid \<Rightarrow> bool" where
  "symmetric g =
     (\<forall>a na b. map_of (neurons g) a = Some na \<and> b \<in> set (connections na) \<longrightarrow>
        (\<exists>nb. map_of (neurons g) b = Some nb \<and> a \<in> set (connections nb))
        \<and> has_edge (network g) a b)"

text \<open>
  No neuron has ever fired: every activation and every memory state is zero, the cached
  level is in the unit interval, and the graph has a node as soon as the registry has a
  neuron.
\<close>

definition quiet :: "ConsciousnessGrid \<Rightarrow> bool" where
  "quiet g =
     (list_all (\<lambda>(k, n). activation n = 0 \<and> memory_state n = 0) (neurons g)
      \<and> 0 \<le> consciousness_level g \<and> consciousness_level g \<le> 1
      \<and> (neurons g = [] \<or> nodes (network g) \<noteq> []))"

text \<open>What \<^verbatim>\<open>self.grid[x][y]\<close> holds (nothing where the subscript would raise).\<close>

definition cell_at :: "nat option list list \<Rightarrow> int \<Rightarrow> int \<Rightarrow> nat option" where
  "cell_at cells x y =
     (case py_index cells x of
        Inl e \<Rightarrow> None
      | Inr row \<Rightarrow> (case py_index row y of Inl e \<Rightarrow> None | Inr c \<Rightarrow> c))"

text \<open>
  Every neuron carries its key as id and sits in the cell of its coordinates, and its
  connection list names, without repetition, other neurons of the registry in reach.
\<close>

definition geo :: "ConsciousnessGrid \<Rightarrow> bool" where
  "geo g =
     (keys_ok g \<and>
      list_all (\<lambda>(k, e).
          id_n e = k \<and> cell_at (grid g) (x_n e) (y_n e) = Some k \<and> distinct (connections e)
          \<and> list_all (\<lambda>b. b \<noteq> k \<and>
                (case map_of (neurons g) b of
                   None \<Rightarrow> False
                 | Some eb \<Rightarrow> (x_n e - x_n eb)\<^sup>2 + (y_n e - y_n eb)\<^sup>2 \<le> 25))
              (connections e))
        (neurons g))"

text \<open>The lattice points within distance 5 of a point, the point itself left out.\<close>

definition ring :: "(int \<times> int) list" where
  "ring = filter (\<lambda>(dx, dy). dx\<^sup>2 + dy\<^sup>2 \<le> 25 \<and> (dx, dy) \<noteq> (0, 0))
            (List.product [-5..5] [-5..5])"

subsection \<open>Notions the statements use\<close>


text \<open>
  Two registry entries agree when they have the same key and the same type, processing
  power, connection list, activation and memory state; ids and coordinates may differ.
\<close>

definition agree :: "nat \<times> Neuron \<Rightarrow> nat \<times> Neuron \<Rightarrow> bool" where
  "agree p q =
     (fst p = fst q \<and> type_n (snd p) = type_n (snd q)
      \<and> processing_power (snd p) = processing_power (snd q)
      \<and> connections (snd p) = connections (snd q)
      \<and> activation (snd p) = activation (snd q)
      \<and> memory_state (snd p) = memory_state (snd q))"

text \<open>
  A neuron is within reach of a position when their Euclidean distance is at most 5.0;
  \<open>eligible_before\<close> counts the neurons in reach among the first \<open>i\<close> registry entries,
  the ones the auto-connect loop meets before entry \<open>i\<close>.
\<close>

definition within_reach :: "int \<Rightarrow> int \<Rightarrow> Neuron \<Rightarrow> bool" where
  "within_reach x y e = (sqrt (real_of_int ((x - x_n e)\<^sup>2 + (y - y_n e)\<^sup>2)) \<le> 5)"

definition eligible_before :: "int \<Rightarrow> int \<Rightarrow> (nat \<times> Neuron) list \<Rightarrow> nat \<Rightarrow> nat" where
  "eligible_before x y regs i = length (filter (\<lambda>(k, e). within_reach x y e) (take i regs))"

subsection \<open>Concrete sessions and grids\<close>

text \<open>A fresh session with one registered player, and a move without a power entry.\<close>

definition session0 :: Game where
  "session0 = add_player ''alice'' ''single'' Game_init"

definition move_at :: "int \<Rightarrow> int \<Rightarrow> string \<Rightarrow> Move" where
  "move_at x y name = \<lparr>x_m = x, y_m = y, type_m = name, processing_power_m = None\<rparr>"

text \<open>The session after \<open>alice\<close> has placed a sensor at \<open>(0, 0)\<close>.\<close>

definition session1 :: Game where
  "session1 = snd (play_turn networkx_ref ''alice'' (move_at 0 0 ''sensor'') session0)"


text \<open>
  Five processors of power 5 placed by \<open>alice\<close> at \<open>(0, 0)\<close> to \<open>(4, 0)\<close>, one turn each.
\<close>

definition processor_at :: "int \<Rightarrow> Move" where
  "processor_at x = \<lparr>x_m = x, y_m = 0, type_m = ''processor'', processing_power_m = Some 5\<rparr>"

definition session5 :: Game where
  "session5 =
     foldl (\<lambda>s x. snd (play_turn networkx_ref ''alice'' (processor_at x) s)) session0 [0, 1, 2, 3, 4]"

text \<open>
  The neuron and the grid that a second placement, a memory neuron of power 7 at
  \<open>(1, 1)\<close>, produces from the grid of \<open>session1\<close>.
\<close>

definition neuron2 :: Neuron where
  "neuron2 = \<lparr>id_n = 1, x_n = 1, y_n = 1, type_n = MEMORY, processing_power = 7,
              connections = [0], activation = 0, memory_state = 0\<rparr>"

definition grid2 :: ConsciousnessGrid where
  "grid2 =
     \<lparr>size_g = 19,
      grid = (replicate 19 (replicate 19 None))
               [0 := (replicate 19 None)[0 := Some 0], 1 := (replicate 19 None)[1 := Some 1]],
      neurons = [(0, \<lparr>id_n = 0, x_n = 0, y_n = 0, type_n = SENSOR, processing_power = 5,
                       connections = [1], activation = 0, memory_state = 0\<rparr>),
                 (1, neuron2)],
      network = \<lparr>nodes = [(0, Some ''alice''), (1, Some ''alice'')], edges = [(1, 0)]\<rparr>,
      consciousness_level = 0, emergence_patterns = []\<rparr>"

text \<open>
  Three processors placed in a row on a fresh grid, by direct calls of \<^verbatim>\<open>place_neuron\<close>
  (\<open>placed\<close> is the grid a call leaves behind).
\<close>

definition placed :: "int \<Rightarrow> int \<Rightarrow> ConsciousnessGrid \<Rightarrow> ConsciousnessGrid" where
  "placed x y g =
     (case place_neuron x y PROCESSOR 5 ''alice'' g of Inl e \<Rightarrow> g | Inr (r, g') \<Rightarrow> g')"

definition row3 :: ConsciousnessGrid where
  "row3 = placed 2 0 (placed 1 0 (placed 0 0 (ConsciousnessGrid_init 19)))"


text \<open>The processor that \<open>placed k 0\<close> creates as neuron \<open>k\<close>, with its connection list.\<close>

definition processor :: "nat \<Rightarrow> nat list \<Rightarrow> Neuron" where
  "processor k cs = \<lparr>id_n = k, x_n = int k, y_n = 0, type_n = PROCESSOR, processing_power = 5,
                     connections = cs, activation = 0, memory_state = 0\<rparr>"

text \<open>
  Five processors in a row, and the sixth placement at \<open>(5, 0)\<close>: the neuron it creates
  and the grid it leaves.
\<close>

definition row5 :: ConsciousnessGrid where
  "row5 = placed 4 0 (placed 3 0 row3)"

definition neuron6 :: Neuron where
  "neuron6 = \<lparr>id_n = 5, x_n = 5, y_n = 0, type_n = PROCESSOR, processing_power = 5,
              connections = [0, 1, 2, 3], activation = 0, memory_state = 0\<rparr>"

definition row6 :: ConsciousnessGrid where
  "row6 = placed 5 0 row5"

text \<open>
  The session that differs from \<open>session1\<close> only in the power of the sensor placed at
  \<open>(0, 0)\<close>.
\<close>

definition session1_strong :: Game where
  "session1_strong =
     snd (play_turn networkx_ref ''alice''
            \<lparr>x_m = 0, y_m = 0, type_m = ''sensor'', processing_power_m = Some 7\<rparr> session0)"

section \<open>Properties\<close>

subsection \<open>Indexing\<close>

lemma py_index_in_range:
  "0 \<le> i \<Longrightarrow> i < int (length xs) \<Longrightarrow> py_index xs i = Inr (xs ! nat i)"
  by (simp add: py_index_def norm_index_def)

lemma py_index_out_of_range:
  "i < - int (length xs) \<or> int (length xs) \<le> i \<Longrightarrow> py_index xs i = Inl IndexError"
  by (auto simp: py_index_def norm_index_def)

lemma py_index_row_length:
  "list_all (\<lambda>row. length row = n) xss \<Longrightarrow> py_index xss i = Inr row \<Longrightarrow> length row = n"
  by (auto simp: py_index_def norm_index_def list_all_length split: if_splits)

lemma place_neuron_occupied:
  assumes "0 \<le> x" "x < int (length (grid g))"
      and "0 \<le> y" "y < int (length (grid g ! nat x))"
      and "grid g ! nat x ! nat y \<noteq> None"
  shows "place_neuron x y t pw pid g = Inr (None, g)"
  using assms by (auto simp: place_neuron_def py_index_in_range)

lemma place_neuron_out_of_bounds:
  assumes "wf_grid g"
      and "x < - int (size_g g) \<or> int (size_g g) \<le> x \<or> y < - int (size_g g) \<or> int (size_g g) \<le> y"
  shows "place_neuron x y t pw pid g = Inl IndexError"
proof (cases "py_index (grid g) x")
  case (Inl e)
  then have "e = IndexError" by (auto simp: py_index_def split: option.splits)
  with Inl show ?thesis by (simp add: place_neuron_def)
next
  case (Inr row)
  with assms have len: "length row = size_g g"
    by (auto simp: wf_grid_def dest: py_index_row_length)
  from Inr assms have "\<not> (x < - int (size_g g) \<or> int (size_g g) \<le> x)"
    by (auto simp: wf_grid_def py_index_def norm_index_def split: if_splits)
  with assms len have "py_index row y = Inl IndexError"
    by (intro py_index_out_of_range) auto
  with Inr show ?thesis by (simp add: place_neuron_def)
qed

subsection \<open>The auto-connect loop\<close>

lemma has_edge_ensure_node [simp]: "has_edge (ensure_node v G) a b = has_edge G a b"
  by (simp add: ensure_node_def has_edge_def)

lemma has_edge_add_node [simp]: "has_edge (add_node v p G) a b = has_edge G a b"
  by (simp add: add_node_def has_edge_def)

lemma has_edge_add_edge_mono: "has_edge G a b \<Longrightarrow> has_edge (add_edge u v G) a b"
  by (auto simp: add_edge_def Let_def has_edge_def ensure_node_def)

lemma has_edge_add_edge_new: "has_edge (add_edge u v G) u v"
  by (auto simp: add_edge_def Let_def has_edge_def ensure_node_def)

lemma has_edge_sym: "has_edge G a b = has_edge G b a"
  by (auto simp: has_edge_def)

lemma connect_loop_keys:
  "connect_loop regs nr G m = (regs', nr', G', m') \<Longrightarrow> map fst regs' = map fst regs"
  by (induction regs arbitrary: nr G m regs' nr' G' m')
     (auto split: if_splits prod.splits)

lemma connect_loop_edges_mono:
  "connect_loop regs nr G m = (regs', nr', G', m') \<Longrightarrow> has_edge G a b \<Longrightarrow> has_edge G' a b"
proof (induction regs arbitrary: nr G m regs' nr' G' m')
  case Nil
  then show ?case by simp
next
  case (Cons p regs)
  obtain k e where p: "p = (k, e)" by (cases p)
  show ?case
  proof (cases "can_connect nr e \<and> m < 4")
    case True
    with Cons.prems p obtain r where
      "connect_loop regs (nr\<lparr>connections := connections nr @ [k]\<rparr>) (add_edge (id_n nr) k G) (m + 1)
         = (r, nr', G', m')"
      by (auto split: prod.splits)
    from Cons.IH [OF this] Cons.prems(2) show ?thesis
      by (simp add: has_edge_add_edge_mono)
  next
    case False
    with Cons.prems p obtain r where "connect_loop regs nr G m = (r, nr', G', m')"
      by (auto split: prod.splits)
    from Cons.IH [OF this] Cons.prems(2) show ?thesis .
  qed
qed

lemma connect_loop_neuron:
  "connect_loop regs nr G m = (regs', nr', G', m') \<Longrightarrow>
     (\<exists>sel. nr' = nr\<lparr>connections := connections nr @ sel\<rparr> \<and> length sel + m = m'
        \<and> (m \<le> 4 \<longrightarrow> m' \<le> 4)
        \<and> (\<forall>b\<in>set sel. \<exists>e'. (b, e') \<in> set regs' \<and> id_n nr \<in> set (connections e')
                           \<and> has_edge G' (id_n nr) b))"
proof (induction regs arbitrary: nr G m regs' nr' G' m')
  case Nil
  then show ?case by simp
next
  case (Cons p regs)
  obtain k e where p: "p = (k, e)" by (cases p)
  show ?case
  proof (cases "can_connect nr e \<and> m < 4")
    case True
    let ?nr = "nr\<lparr>connections := connections nr @ [k]\<rparr>"
    let ?G = "add_edge (id_n nr) k G"
    from True Cons.prems p obtain r where
      rec: "connect_loop regs ?nr ?G (m + 1) = (r, nr', G', m')"
      and regs': "regs' = (k, e\<lparr>connections := connections e @ [id_n nr]\<rparr>) # r"
      by (auto split: prod.splits)
    from Cons.IH [OF rec] obtain sel where
      sel: "nr' = ?nr\<lparr>connections := connections ?nr @ sel\<rparr>" "length sel + (m + 1) = m'"
           "m + 1 \<le> 4 \<longrightarrow> m' \<le> 4"
           "\<forall>b\<in>set sel. \<exists>e'. (b, e') \<in> set r \<and> id_n ?nr \<in> set (connections e')
                           \<and> has_edge G' (id_n ?nr) b"
      by blast
    have "has_edge G' (id_n nr) k"
      using connect_loop_edges_mono [OF rec] by (simp add: has_edge_add_edge_new)
    with sel regs' True show ?thesis
      by (intro exI [of _ "k # sel"]) auto
  next
    case False
    with Cons.prems p obtain r where
      rec: "connect_loop regs nr G m = (r, nr', G', m')" and regs': "regs' = (k, e) # r"
      by (auto split: prod.splits)
    from Cons.IH [OF rec] obtain sel where
      sel: "nr' = nr\<lparr>connections := connections nr @ sel\<rparr>" "length sel + m = m'"
           "m \<le> 4 \<longrightarrow> m' \<le> 4"
           "\<forall>b\<in>set sel. \<exists>e'. (b, e') \<in> set r \<and> id_n nr \<in> set (connections e')
                           \<and> has_edge G' (id_n nr) b"
      by blast
    from sel(4) regs' have "\<forall>b\<in>set sel. \<exists>e'. (b, e') \<in> set regs' \<and> id_n nr \<in> set (connections e')
                           \<and> has_edge G' (id_n nr) b"
      by fastforce
    with sel(1-3) show ?thesis by blast
  qed
qed

lemma connect_loop_entries:
  "connect_loop regs nr G m = (regs', nr', G', m') \<Longrightarrow>
     list_all2 (\<lambda>(k, e) (k', e'). k' = k \<and>
                  (e' = e \<or> (e' = e\<lparr>connections := connections e @ [id_n nr]\<rparr>
                             \<and> k \<in> set (connections nr') \<and> has_edge G' (id_n nr) k)))
       regs regs'"
proof (induction regs arbitrary: nr G m regs' nr' G' m')
  case Nil
  then show ?case by simp
next
  case (Cons p regs)
  obtain k e where p: "p = (k, e)" by (cases p)
  show ?case
  proof (cases "can_connect nr e \<and> m < 4")
    case True
    let ?nr = "nr\<lparr>connections := connections nr @ [k]\<rparr>"
    let ?G = "add_edge (id_n nr) k G"
    from True Cons.prems p obtain r where
      rec: "connect_loop regs ?nr ?G (m + 1) = (r, nr', G', m')"
      and regs': "regs' = (k, e\<lparr>connections := connections e @ [id_n nr]\<rparr>) # r"
      by (auto split: prod.splits)
    have e: "has_edge G' (id_n nr) k"
      using connect_loop_edges_mono [OF rec] by (simp add: has_edge_add_edge_new)
    from connect_loop_neuron [OF rec] have k: "k \<in> set (connections nr')" by auto
    from Cons.IH [OF rec] p regs' e k show ?thesis by simp
  next
    case False
    with Cons.prems p obtain r where
      rec: "connect_loop regs nr G m = (r, nr', G', m')" and regs': "regs' = (k, e) # r"
      by (auto split: prod.splits)
    from Cons.IH [OF rec] p regs' show ?thesis by simp
  qed
qed

subsection \<open>Placement keeps connections mutual\<close>

lemma dict_set_fresh: "k \<notin> fst ` set kvs \<Longrightarrow> dict_set kvs k v = kvs @ [(k, v)]"
  by (induction kvs) auto

lemma place_neuron_SomeD:
  assumes "place_neuron x y t pw pid g = Inr (Some nr', g')"
  shows "\<exists>regs' G' m'.
           connect_loop (neurons g)
             \<lparr>id_n = length (neurons g), x_n = x, y_n = y, type_n = t, processing_power = pw,
              connections = [], activation = 0, memory_state = 0\<rparr> (network g) 0
             = (regs', nr', G', m')
           \<and> neurons g' = dict_set regs' (length (neurons g)) nr'
           \<and> network g' = add_node (length (neurons g)) pid G'
           \<and> consciousness_level g' = consciousness_level g"
  using assms
  by (auto simp: place_neuron_def Let_def split: sum.splits option.splits prod.splits)

lemma place_neuron_NoneD:
  "place_neuron x y t pw pid g = Inr (None, g') \<Longrightarrow> g' = g"
  by (auto simp: place_neuron_def Let_def split: sum.splits option.splits prod.splits)

lemma keys_ok_distinct: "keys_ok g \<Longrightarrow> distinct (map fst (neurons g))"
  by (simp add: keys_ok_def)

lemma keys_ok_fresh: "keys_ok g \<Longrightarrow> length (neurons g) \<notin> fst ` set (neurons g)"
proof -
  assume "keys_ok g"
  then have "set (map fst (neurons g)) = {0..<length (neurons g)}"
    by (simp add: keys_ok_def)
  then show ?thesis by auto
qed

lemma list_all2_entryD1:
  assumes "list_all2 R xs ys" and "x \<in> set xs"
  shows "\<exists>y\<in>set ys. R x y"
  using assms by (induction rule: list_all2_induct) auto

lemma list_all2_entryD2:
  assumes "list_all2 R xs ys" and "y \<in> set ys"
  shows "\<exists>x\<in>set xs. R x y"
  using assms by (induction rule: list_all2_induct) auto

lemma place_neuron_preserves:
  assumes ok: "keys_ok g" and sym: "symmetric g"
      and pl: "place_neuron x y t pw pid g = Inr (Some nr', g')"
  shows "keys_ok g' \<and> symmetric g' \<and> length (connections nr') \<le> 4
         \<and> id_n nr' = length (neurons g)
         \<and> map_of (neurons g') (length (neurons g)) = Some nr'"
proof -
  let ?n = "length (neurons g)"
  let ?nr = "\<lparr>id_n = ?n, x_n = x, y_n = y, type_n = t, processing_power = pw,
              connections = [], activation = 0, memory_state = 0\<rparr>"
  from place_neuron_SomeD [OF pl] obtain regs' G' m' where
    loop: "connect_loop (neurons g) ?nr (network g) 0 = (regs', nr', G', m')"
    and regs: "neurons g' = dict_set regs' ?n nr'"
    and net: "network g' = add_node ?n pid G'"
    by blast
  have keys': "map fst regs' = map fst (neurons g)"
    using loop by (rule connect_loop_keys)
  have fresh: "?n \<notin> fst ` set regs'"
    using keys_ok_fresh [OF ok] keys' by (metis set_map)
  have regs_app: "neurons g' = regs' @ [(?n, nr')]"
    using regs fresh by (simp add: dict_set_fresh)
  have dist: "distinct (map fst (neurons g))" using ok by (rule keys_ok_distinct)
  have dist': "distinct (map fst regs')" using dist keys' by simp
  have dist'': "distinct (map fst (neurons g'))"
    using dist' fresh regs_app by simp
  from connect_loop_neuron [OF loop] obtain sel where
    sel: "nr' = ?nr\<lparr>connections := sel\<rparr>" "length sel = m'" "m' \<le> 4"
         "\<forall>b\<in>set sel. \<exists>e'. (b, e') \<in> set regs' \<and> ?n \<in> set (connections e')
                           \<and> has_edge G' ?n b"
    by auto
  have ent: "list_all2 (\<lambda>(k, e) (k', e'). k' = k \<and>
                  (e' = e \<or> (e' = e\<lparr>connections := connections e @ [?n]\<rparr>
                             \<and> k \<in> set (connections nr') \<and> has_edge G' ?n k)))
       (neurons g) regs'"
    using connect_loop_entries [OF loop] by simp
  have lens: "length regs' = ?n"
    using keys' by (metis length_map)
  have k1: "keys_ok g'"
    using ok keys' regs_app lens by (simp add: keys_ok_def)
  have len: "length (connections nr') \<le> 4" using sel by simp
  have idn: "id_n nr' = ?n" using sel by simp
  have "(?n, nr') \<in> set (neurons g')" using regs_app by simp
  with dist'' have look: "map_of (neurons g') ?n = Some nr'"
    by (rule map_of_is_SomeI)
  have mono: "has_edge (network g) a b \<Longrightarrow> has_edge (network g') a b" for a b
    using connect_loop_edges_mono [OF loop] net by simp
  have "symmetric g'"
    unfolding symmetric_def
  proof (intro allI impI, elim conjE)
    fix a na b
    assume a: "map_of (neurons g') a = Some na" and b: "b \<in> set (connections na)"
    from a have amem: "(a, na) \<in> set (neurons g')" by (rule map_of_SomeD)
    show "(\<exists>nb. map_of (neurons g') b = Some nb \<and> a \<in> set (connections nb))
          \<and> has_edge (network g') a b"
    proof (cases "a = ?n")
      case True
      with a look have na: "na = nr'" by simp
      with b sel have "b \<in> set sel" by simp
      with sel(4) obtain e' where e': "(b, e') \<in> set regs'" "?n \<in> set (connections e')"
        "has_edge G' ?n b" by blast
      from e'(1) regs_app have "(b, e') \<in> set (neurons g')" by simp
      with dist'' have "map_of (neurons g') b = Some e'" by simp
      with e' True net show ?thesis by simp
    next
      case False
      with amem regs_app have amem': "(a, na) \<in> set regs'" by auto
      from list_all2_entryD2 [OF ent amem'] obtain e where
        e: "(a, e) \<in> set (neurons g)"
        and rel: "na = e \<or> (na = e\<lparr>connections := connections e @ [?n]\<rparr>
                     \<and> a \<in> set (connections nr') \<and> has_edge G' ?n a)"
        by auto
      have olda: "map_of (neurons g) a = Some e" using e dist by simp
      show ?thesis
      proof (cases "b \<in> set (connections e)")
        case True
        with sym olda obtain nb where
          nb: "map_of (neurons g) b = Some nb" "a \<in> set (connections nb)"
          and edge: "has_edge (network g) a b"
          unfolding symmetric_def by blast
        from nb(1) have "(b, nb) \<in> set (neurons g)" by (rule map_of_SomeD)
        from list_all2_entryD1 [OF ent this] obtain nb' where
          nb': "(b, nb') \<in> set regs'" "nb' = nb \<or> nb' = nb\<lparr>connections := connections nb @ [?n]\<rparr>"
          by auto
        from nb'(1) regs_app have "(b, nb') \<in> set (neurons g')" by simp
        with dist'' have "map_of (neurons g') b = Some nb'" by simp
        moreover from nb' nb(2) have "a \<in> set (connections nb')" by auto
        ultimately show ?thesis using mono [OF edge] by blast
      next
        case notold: False
        with rel b have new: "na = e\<lparr>connections := connections e @ [?n]\<rparr>"
          "a \<in> set (connections nr')" "has_edge G' ?n a" and bn: "b = ?n"
          by auto
        from new(3) net have "has_edge (network g') a b"
          using bn by (simp add: has_edge_sym)
        with look new(2) bn show ?thesis by simp
      qed
    qed
  qed
  with k1 len idn look show ?thesis by simp
qed

subsection \<open>Evaluating concrete sessions\<close>

lemma sqrt_le_5_iff: "sqrt r \<le> 5 \<longleftrightarrow> r \<le> 25"
proof -
  have "sqrt r \<le> sqrt 25 \<longleftrightarrow> r \<le> 25"
    by (rule real_sqrt_le_iff)
  moreover have "sqrt 25 = (5::real)"
    using real_sqrt_abs [of 5] by simp
  ultimately show ?thesis by simp
qed

lemma can_connect_iff:
  "can_connect self other \<longleftrightarrow>
     (x_n self - x_n other)\<^sup>2 + (y_n self - y_n other)\<^sup>2 \<le> 25 \<and> id_n other \<notin> set (connections self)"
proof -
  have "real_of_int ((x_n self - x_n other)\<^sup>2 + (y_n self - y_n other)\<^sup>2) \<le> 25
        \<longleftrightarrow> (x_n self - x_n other)\<^sup>2 + (y_n self - y_n other)\<^sup>2 \<le> 25"
    by linarith
  then show ?thesis
    by (simp add: can_connect_def sqrt_le_5_iff)
qed

lemma settle_unfold:
  "settle g = simulate_step (simulate_step (simulate_step (simulate_step (simulate_step g))))"
  by (simp add: settle_def eval_nat_numeral)

lemmas run_defs =
  play_turn_def move_at_def session0_def add_player_def Game_init_def upper_def upper_char_def
  NeuronType_getitem_def place_neuron_def ConsciousnessGrid_init_def py_index_def
  py_setitem_def norm_index_def add_node_def add_edge_def ensure_node_def has_node_def has_edge_def
  empty_graph_def settle_unfold simulate_step_def step_neuron_def input_sum_def
  calculate_consciousness_level_def can_connect_iff Let_def

lemma session1_eval:
  "session1 =
     \<lparr>grid_G =
        \<lparr>size_g = 19,
         grid = (replicate 19 (replicate 19 None))[0 := (replicate 19 None)[0 := Some 0]],
         neurons = [(0, \<lparr>id_n = 0, x_n = 0, y_n = 0, type_n = SENSOR, processing_power = 5,
                          connections = [], activation = 0, memory_state = 0\<rparr>)],
         network = \<lparr>nodes = [(0, Some ''alice'')], edges = []\<rparr>,
         consciousness_level = 0, emergence_patterns = []\<rparr>,
      players = [''alice'' \<mapsto> \<lparr>type_pl = ''single'', neurons_placed = 1,
                                 consciousness_achieved = False, peak_consciousness = 0\<rparr>],
      turn = 1, max_turns = 100, winner = None\<rparr>"
  by (simp add: session1_def run_defs)

subsection \<open>A grid in which nothing has fired\<close>

lemma input_sum_quiet:
  assumes "list_all (\<lambda>(k, n). activation n = 0 \<and> memory_state n = 0) regs"
  shows "input_sum regs neuron = 0"
proof -
  have z: "map_of regs c = Some e \<Longrightarrow> activation e = 0" for c e
    using assms by (auto simp: list_all_iff dest: map_of_SomeD)
  have "foldl (\<lambda>acc conn_id.
              case map_of regs conn_id of
                None \<Rightarrow> acc
              | Some conn_neuron \<Rightarrow>
                  acc + activation conn_neuron *
                    (1.0 / (1.0 + \<bar>processing_power neuron - processing_power conn_neuron\<bar>)))
           a cs = a" for a cs
    by (induction cs arbitrary: a) (auto simp: z split: option.splits)
  then show ?thesis by (simp add: input_sum_def)
qed

lemma step_neuron_quiet:
  assumes "list_all (\<lambda>(k, n). activation n = 0 \<and> memory_state n = 0) regs"
      and "memory_state neuron = 0"
  shows "fst (step_neuron level regs neuron) = 0
         \<and> memory_state (snd (step_neuron level regs neuron)) = 0"
  using assms(2)
  by (cases "type_n neuron") (simp_all add: step_neuron_def input_sum_quiet [OF assms(1)])

lemma simulate_step_fields:
  "consciousness_level (simulate_step g) = consciousness_level g
   \<and> network (simulate_step g) = network g \<and> grid (simulate_step g) = grid g
   \<and> size_g (simulate_step g) = size_g g
   \<and> map fst (neurons (simulate_step g)) = map fst (neurons g)"
  by (auto simp: simulate_step_def Let_def split: prod.splits)

lemma simulate_step_neurons:
  "neurons (simulate_step g) =
     map (\<lambda>(nid, n). (nid, (snd (step_neuron (consciousness_level g) (neurons g) n))
                           \<lparr>activation := fst (step_neuron (consciousness_level g) (neurons g) n)\<rparr>))
         (neurons g)"
  by (simp add: simulate_step_def Let_def split_def)

lemma quiet_simulate_step:
  assumes "quiet g"
  shows "quiet (simulate_step g)"
proof -
  from assms have q: "list_all (\<lambda>(k, n). activation n = 0 \<and> memory_state n = 0) (neurons g)"
    by (simp add: quiet_def)
  have "list_all (\<lambda>(k, n). activation n = 0 \<and> memory_state n = 0) (neurons (simulate_step g))"
    using q step_neuron_quiet [OF q]
    by (auto simp: simulate_step_neurons list_all_iff)
  moreover have "neurons (simulate_step g) = [] \<longleftrightarrow> neurons g = []"
    by (simp add: simulate_step_neurons)
  ultimately show ?thesis
    using assms by (simp add: quiet_def simulate_step_fields)
qed


lemma loop_patterns_quiet:
  assumes "list_all (\<lambda>(k, n). activation n = 0 \<and> memory_state n = 0) regs"
  shows "loop_patterns regs cycles patterns = patterns"
proof (induction cycles)
  case Nil
  then show ?case by simp
next
  case (Cons cycle cycles)
  have z: "map_of regs c = Some e \<Longrightarrow> activation e = 0" for c e
    using assms by (auto simp: list_all_iff dest: map_of_SomeD)
  have "those (map (map_of regs) cs) = Some members \<Longrightarrow> sum_list (map activation members) = 0"
    for cs members
    by (induction cs arbitrary: members) (auto simp: z split: option.splits)
  with Cons show ?case by (auto split: option.splits)
qed

lemma np_mean_bounds:
  assumes "xs \<noteq> []" and "\<forall>v\<in>set xs. lo \<le> v \<and> v \<le> hi"
  shows "lo \<le> np_mean xs \<and> np_mean xs \<le> hi"
proof -
  have "sum_list xs \<le> real (length xs) * hi \<and> real (length xs) * lo \<le> sum_list xs"
    using assms(2) by (induction xs) (auto simp: algebra_simps)
  moreover have "0 < real (length xs)" using assms(1) by simp
  ultimately show ?thesis
    by (simp add: np_mean_def pos_le_divide_eq pos_divide_le_eq mult.commute)
qed

lemma np_var_zero:
  assumes "\<forall>v\<in>set xs. v = 0"
  shows "np_var xs = 0"
proof -
  have s: "sum_list ys = 0" if "\<forall>v\<in>set ys. v = (0::real)" for ys
    using that by (induction ys) auto
  have m: "np_mean xs = 0" using s [OF assms] by (simp add: np_mean_def)
  have "sum_list (map (\<lambda>v. (v - np_mean xs)\<^sup>2) xs) = 0"
    using assms by (intro s) (auto simp: m)
  then show ?thesis by (simp add: np_var_def np_mean_def)
qed

lemma attractor_patterns_quiet:
  assumes "list_all (\<lambda>(k, n). activation n = 0 \<and> memory_state n = 0) (neurons g)"
  shows "attractor_patterns g = []"
proof -
  have "np_var (map (\<lambda>(nid, n). activation n) (neurons g)) = 0"
    using assms by (intro np_var_zero) (auto simp: list_all_iff)
  then show ?thesis by (simp add: attractor_patterns_def Let_def)
qed

lemma hierarchy_patterns_bounds:
  assumes "nx_contract lib"
  shows "hierarchy_patterns lib g = []
         \<or> (\<exists>h. hierarchy_patterns lib g = [h] \<and> type_p h = Hierarchy
                \<and> 0 \<le> strength h \<and> strength h \<le> 1)"
proof -
  let ?cent = "betweenness_centrality lib (network g)"
  let ?hubs = "map fst (filter (\<lambda>(nid, cent). cent > 0.1) ?cent)"
  have vals: "\<forall>(v, c)\<in>set ?cent. 0 \<le> c \<and> c \<le> 1"
    using assms by (auto simp: nx_contract_def list_all_iff)
  have "\<forall>c\<in>set (map (\<lambda>nid. the (map_of ?cent nid)) ?hubs). 0 \<le> c \<and> c \<le> 1"
  proof
    fix c assume "c \<in> set (map (\<lambda>nid. the (map_of ?cent nid)) ?hubs)"
    then obtain nid c0 where nid: "(nid, c0) \<in> set ?cent" and c: "c = the (map_of ?cent nid)"
      by auto
    from nid have "nid \<in> fst ` set ?cent" by force
    then obtain c1 where "map_of ?cent nid = Some c1"
      by (metis domD dom_map_of_conv_image_fst)
    with c have "(nid, c) \<in> set ?cent" by (auto dest: map_of_SomeD)
    with vals show "0 \<le> c \<and> c \<le> 1" by auto
  qed
  moreover have "length ?hubs \<ge> 2 \<Longrightarrow> map (\<lambda>nid. the (map_of ?cent nid)) ?hubs \<noteq> []"
    by auto
  ultimately have "length ?hubs \<ge> 2 \<Longrightarrow>
      0 \<le> np_mean (map (\<lambda>nid. the (map_of ?cent nid)) ?hubs)
      \<and> np_mean (map (\<lambda>nid. the (map_of ?cent nid)) ?hubs) \<le> 1"
    by (intro np_mean_bounds) auto
  then show ?thesis
    by (auto simp: hierarchy_patterns_def Let_def)
qed

lemma detect_quiet:
  assumes "nx_contract lib"
      and "list_all (\<lambda>(k, n). activation n = 0 \<and> memory_state n = 0) (neurons g)"
  shows "detect_consciousness_patterns lib g = hierarchy_patterns lib g"
  using loop_patterns_quiet [OF assms(2)] attractor_patterns_quiet [OF assms(2)]
  by (simp add: detect_consciousness_patterns_def split: option.splits)

lemma calculate_quiet:
  assumes c: "nx_contract lib" and q: "quiet g"
  shows "\<exists>v g'. calculate_consciousness_level lib g = Inr (v, g') \<and> 0 \<le> v \<and> v \<le> 1 \<and> quiet g'"
proof (cases "length (neurons g) < 5")
  case True
  with q show ?thesis by (simp add: calculate_consciousness_level_def)
next
  case False
  let ?n = "real (length (neurons g))"
  let ?cl = "average_clustering lib (network g)"
  from q have z: "list_all (\<lambda>(k, n). activation n = 0 \<and> memory_state n = 0) (neurons g)"
    by (simp add: quiet_def)
  from False q have nodes: "number_of_nodes (network g) \<noteq> 0"
    by (auto simp: quiet_def number_of_nodes_def)
  have cl: "0 \<le> ?cl" "?cl \<le> 1" using c by (auto simp: nx_contract_def)
  have cx: "0 \<le> min 1 (?n / 50)" "min 1 (?n / 50) \<le> 1" by auto
  have det: "detect_consciousness_patterns lib g = hierarchy_patterns lib g"
    using c z by (rule detect_quiet)
  from hierarchy_patterns_bounds [OF c, of g] show ?thesis
  proof
    assume h: "hierarchy_patterns lib g = []"
    let ?v = "min 1 (?n / 50) * 0.2 + ?cl * 0.2"
    have "0 \<le> ?v \<and> ?v \<le> 1" using cl cx by simp
    with False nodes q det h show ?thesis
      by (simp add: calculate_consciousness_level_def nx_average_clustering_def quiet_def Let_def)
  next
    assume "\<exists>h. hierarchy_patterns lib g = [h] \<and> type_p h = Hierarchy
                \<and> 0 \<le> strength h \<and> strength h \<le> 1"
    then obtain h where h: "hierarchy_patterns lib g = [h]" "0 \<le> strength h" "strength h \<le> 1"
      by blast
    let ?v = "min 1 (?n / 50) * 0.2 + 1 / 4.0 * 0.3 + strength h * 0.3 + ?cl * 0.2"
    have "0 \<le> ?v \<and> ?v \<le> 1" using cl cx h(2,3) by simp
    with False nodes q det h(1) show ?thesis
      by (simp add: calculate_consciousness_level_def nx_average_clustering_def quiet_def
          np_mean_def Let_def)
  qed
qed


lemma list_all_dict_set:
  "list_all P kvs \<Longrightarrow> P (k, v) \<Longrightarrow> list_all P (dict_set kvs k v)"
  by (induction kvs) auto

lemma dict_set_not_Nil: "dict_set kvs k v \<noteq> []"
  by (cases kvs) (auto split: if_splits)

lemma quiet_place_neuron:
  assumes q: "quiet g" and pl: "place_neuron x y t pw pid g = Inr (r, g')"
  shows "quiet g'"
proof (cases r)
  case None
  with pl have "g' = g" by (auto dest: place_neuron_NoneD)
  with q show ?thesis by simp
next
  case (Some nr')
  let ?n = "length (neurons g)"
  let ?nr = "\<lparr>id_n = ?n, x_n = x, y_n = y, type_n = t, processing_power = pw,
              connections = [], activation = 0, memory_state = 0\<rparr>"
  let ?P = "\<lambda>(k, n). activation n = 0 \<and> memory_state n = 0"
  from place_neuron_SomeD [OF pl [unfolded Some]] obtain regs' G' m' where
    loop: "connect_loop (neurons g) ?nr (network g) 0 = (regs', nr', G', m')"
    and regs: "neurons g' = dict_set regs' ?n nr'"
    and net: "network g' = add_node ?n pid G'"
    and lev: "consciousness_level g' = consciousness_level g"
    by blast
  from q have old: "list_all ?P (neurons g)" by (simp add: quiet_def)
  have "list_all ?P regs'"
    unfolding list_all_iff
  proof
    fix p assume p: "p \<in> set regs'"
    obtain k e' where pe: "p = (k, e')" by (cases p)
    from list_all2_entryD2 [OF connect_loop_entries [OF loop] p] pe
    obtain e where "(k, e) \<in> set (neurons g)"
      "e' = e \<or> e' = e\<lparr>connections := connections e @ [id_n ?nr]\<rparr>"
      by auto
    with old pe show "?P p" by (auto simp: list_all_iff)
  qed
  moreover from connect_loop_neuron [OF loop] have "?P (?n, nr')" by auto
  ultimately have "list_all ?P (neurons g')"
    unfolding regs by (rule list_all_dict_set)
  moreover have "nodes (network g') \<noteq> []"
    by (simp add: net add_node_def dict_set_not_Nil)
  ultimately show ?thesis using q lev by (simp add: quiet_def)
qed

lemma calculate_fields:
  "calculate_consciousness_level lib g = Inr (c, g') \<Longrightarrow>
     neurons g' = neurons g \<and> network g' = network g \<and> grid g' = grid g \<and> size_g g' = size_g g"
  by (auto simp: calculate_consciousness_level_def Let_def split: if_splits sum.splits)

lemma quiet_init: "quiet (ConsciousnessGrid_init n)"
  by (simp add: quiet_def ConsciousnessGrid_init_def)

lemma reachable_grid_quiet:
  assumes "nx_contract lib" and "reachable_grid lib g"
  shows "quiet g"
  using assms(2)
proof (induction rule: reachable_grid.induct)
  case (init n)
  show ?case by (rule quiet_init)
next
  case (place g x y t pw pid r g')
  then show ?case by (auto intro: quiet_place_neuron)
next
  case (step g)
  then show ?case by (simp add: quiet_simulate_step)
next
  case (score g c g')
  with calculate_quiet [OF assms(1), of g] show ?case by auto
qed

lemma reachable_grid_settle:
  "reachable_grid lib g \<Longrightarrow> reachable_grid lib (settle g)"
  by (simp add: settle_def eval_nat_numeral reachable_grid.step)

lemma play_turn_grid:
  assumes "reachable_grid lib (grid_G s)"
  shows "reachable_grid lib (grid_G (snd (play_turn lib pid mv s)))"
proof -
  have pl: "place_neuron x y t pw p (grid_G s) = Inr (r, g) \<Longrightarrow> reachable_grid lib g"
    for x y t pw p r g
    using assms by (rule reachable_grid.place)
  have sc: "place_neuron x y t pw p (grid_G s) = Inr (r, g) \<Longrightarrow>
            calculate_consciousness_level lib (settle g) = Inr (c, g') \<Longrightarrow> reachable_grid lib g'"
    for x y t pw p r g c g'
    using reachable_grid.score [OF reachable_grid_settle [OF pl]] by blast
  show ?thesis
    using assms
    by (auto simp: play_turn_def Let_def
             split: sum.splits option.splits prod.splits
             intro: pl sc reachable_grid_settle)
qed

lemma reachable_grid_of_session:
  "reachable lib s \<Longrightarrow> reachable_grid lib (grid_G s)"
proof (induction rule: reachable.induct)
  case new
  show ?case by (simp add: Game_init_def reachable_grid.init)
next
  case (player s pid ptype)
  then show ?case by (simp add: add_player_def)
next
  case (turn s pid mv)
  from turn.IH show ?case by (rule play_turn_grid)
qed

subsection \<open>The reference library meets the documented ranges\<close>

lemma sum_list_le_length_times:
  fixes f :: "'a \<Rightarrow> nat"
  assumes "\<forall>x\<in>set xs. f x \<le> c"
  shows "sum_list (map f xs) \<le> length xs * c"
  using assms by (induction xs) auto

lemma sum_list_real_le_length_times:
  fixes f :: "'a \<Rightarrow> real"
  assumes "\<forall>x\<in>set xs. f x \<le> c"
  shows "sum_list (map f xs) \<le> real (length xs) * c"
  using assms by (induction xs) (auto simp: algebra_simps)

lemma sum_list_real_nonneg:
  fixes f :: "'a \<Rightarrow> real"
  assumes "\<forall>x\<in>set xs. 0 \<le> f x"
  shows "0 \<le> sum_list (map f xs)"
  using assms by (induction xs) auto

lemma length_filter_without:
  assumes "distinct xs" and "A \<subseteq> set xs" and "finite A"
  shows "length (filter (\<lambda>u. u \<notin> A \<and> P u) xs) \<le> length xs - card A"
proof -
  have "length (filter (\<lambda>u. u \<notin> A \<and> P u) xs) = card ({u. u \<notin> A \<and> P u} \<inter> set xs)"
    using assms(1) by (rule distinct_length_filter)
  also have "\<dots> \<le> card (set xs - A)"
    by (intro card_mono) auto
  also have "\<dots> = card (set xs) - card A"
    using assms(2,3) by (simp add: card_Diff_subset)
  also have "\<dots> = length xs - card A"
    using assms(1) by (simp add: distinct_card)
  finally show ?thesis .
qed

lemma distinct_node_list [simp]: "distinct (node_list G)"
  by (simp add: node_list_def)

lemma distinct_nbrs [simp]: "distinct (nbrs G v)"
  by (simp add: nbrs_def)

lemma triangles2_le: "triangles2 G v \<le> length (nbrs G v) * (length (nbrs G v) - 1)"
  unfolding triangles2_def
proof (rule sum_list_le_length_times, rule ballI)
  fix w assume w: "w \<in> set (nbrs G v)"
  have "length (filter (\<lambda>u. u \<notin> {w} \<and> has_edge G w u) (nbrs G v)) \<le> length (nbrs G v) - card {w}"
    using w by (intro length_filter_without) auto
  then show "length (filter (\<lambda>u. u \<noteq> w \<and> has_edge G w u) (nbrs G v)) \<le> length (nbrs G v) - 1"
    by simp
qed

lemma clustering_bounds: "0 \<le> clustering G v \<and> clustering G v \<le> 1"
proof (cases "triangles2 G v = 0")
  case True
  then show ?thesis by (simp add: clustering_def)
next
  case False
  let ?d = "length (nbrs G v)"
  have le: "triangles2 G v \<le> ?d * (?d - 1)" by (rule triangles2_le)
  with False have pos: "0 < ?d * (?d - 1)" by linarith
  have "real (triangles2 G v) / real (?d * (?d - 1)) \<le> 1"
    using le pos by (simp add: divide_le_eq_1 del: of_nat_mult)
  with False show ?thesis by (simp add: clustering_def Let_def del: of_nat_mult)
qed

lemma ref_average_clustering_bounds:
  "0 \<le> ref_average_clustering G \<and> ref_average_clustering G \<le> 1"
proof (cases "node_list G = []")
  case True
  then show ?thesis by (simp add: ref_average_clustering_def)
next
  case False
  have "\<forall>c\<in>set (map (clustering G) (node_list G)). 0 \<le> c \<and> c \<le> 1"
    using clustering_bounds by auto
  moreover from False have "map (clustering G) (node_list G) \<noteq> []" by simp
  ultimately have "0 \<le> np_mean (map (clustering G) (node_list G))
                   \<and> np_mean (map (clustering G) (node_list G)) \<le> 1"
    by (intro np_mean_bounds) auto
  then show ?thesis by (simp add: ref_average_clustering_def np_mean_def)
qed

lemma walks_compose: "walks G a s v * walks G b v t \<le> walks G (a + b) s t"
proof (induction a arbitrary: s)
  case 0
  then show ?case by simp
next
  case (Suc a)
  have "walks G (Suc a) s v * walks G b v t
        = sum_list (map (\<lambda>u. walks G a u v * walks G b v t) (nbrs G s))"
    by (simp add: sum_list_mult_const)
  also have "\<dots> \<le> sum_list (map (\<lambda>u. walks G (a + b) u t) (nbrs G s))"
    by (intro sum_list_mono Suc.IH)
  finally show ?case by simp
qed

lemma dist_SomeD: "dist G s t = Some d \<Longrightarrow> 0 < walks G d s t"
  by (auto simp: dist_def find_Some_iff)

lemma pair_dependency_bounds: "0 \<le> pair_dependency G v s t \<and> pair_dependency G v s t \<le> 1"
proof -
  have "real (walks G a s v * walks G b v t) / real (walks G (a + b) s t) \<le> 1"
    if "0 < walks G (a + b) s t" for a b
    using that walks_compose [of G a s v b t] by (simp add: divide_le_eq_1 del: of_nat_mult)
  then show ?thesis
    by (auto simp: pair_dependency_def dest: dist_SomeD split: option.splits simp del: of_nat_mult)
qed

lemma betweenness_sum_bounds:
  assumes "distinct V" and "v \<in> set V"
  shows "0 \<le> sum_list (map (\<lambda>s. sum_list (map (pair_dependency G v s)
                                                  (filter (\<lambda>t. t \<noteq> v \<and> t \<noteq> s) V)))
                              (filter (\<lambda>s. s \<noteq> v) V))
         \<and> sum_list (map (\<lambda>s. sum_list (map (pair_dependency G v s)
                                                  (filter (\<lambda>t. t \<noteq> v \<and> t \<noteq> s) V)))
                              (filter (\<lambda>s. s \<noteq> v) V))
           \<le> real ((length V - 1) * (length V - 2))"
proof -
  let ?inner = "\<lambda>s. sum_list (map (pair_dependency G v s) (filter (\<lambda>t. t \<noteq> v \<and> t \<noteq> s) V))"
  have inner_le: "?inner s \<le> real (length V - 2)" if "s \<in> set V" "s \<noteq> v" for s
  proof -
    have "?inner s \<le> real (length (filter (\<lambda>t. t \<noteq> v \<and> t \<noteq> s) V)) * 1"
      by (intro sum_list_real_le_length_times) (simp add: pair_dependency_bounds)
    moreover have "length (filter (\<lambda>t. t \<notin> {v, s} \<and> True) V) \<le> length V - card {v, s}"
      using assms that by (intro length_filter_without) auto
    then have "length (filter (\<lambda>t. t \<noteq> v \<and> t \<noteq> s) V) \<le> length V - 2"
      using that by simp
    ultimately show ?thesis by simp
  qed
  have inner_ge: "0 \<le> ?inner s" for s
    by (intro sum_list_real_nonneg) (simp add: pair_dependency_bounds)
  have "sum_list (map ?inner (filter (\<lambda>s. s \<noteq> v) V))
        \<le> real (length (filter (\<lambda>s. s \<noteq> v) V)) * real (length V - 2)"
    by (intro sum_list_real_le_length_times) (simp add: inner_le)
  moreover have "length (filter (\<lambda>s. s \<notin> {v} \<and> True) V) \<le> length V - card {v}"
    using assms by (intro length_filter_without) auto
  then have "real (length (filter (\<lambda>s. s \<noteq> v) V)) \<le> real (length V - 1)"
    by simp
  then have "real (length (filter (\<lambda>s. s \<noteq> v) V)) * real (length V - 2)
             \<le> real (length V - 1) * real (length V - 2)"
    by (intro mult_right_mono) auto
  ultimately have "sum_list (map ?inner (filter (\<lambda>s. s \<noteq> v) V))
                   \<le> real ((length V - 1) * (length V - 2))"
    by simp
  moreover have "0 \<le> sum_list (map ?inner (filter (\<lambda>s. s \<noteq> v) V))"
    by (intro sum_list_real_nonneg) (simp add: inner_ge)
  ultimately show ?thesis by simp
qed

lemma ref_betweenness_bounds:
  "list_all (\<lambda>(v, c). 0 \<le> c \<and> c \<le> 1) (ref_betweenness_centrality G)"
proof -
  let ?V = "node_list G"
  let ?n = "length ?V"
  let ?S = "\<lambda>v. sum_list (map (\<lambda>s. sum_list (map (pair_dependency G v s)
                                                  (filter (\<lambda>t. t \<noteq> v \<and> t \<noteq> s) ?V)))
                              (filter (\<lambda>s. s \<noteq> v) ?V))"
  have "0 \<le> (if ?n > 2 then 1 / real ((?n - 1) * (?n - 2)) else 1) * ?S v
        \<and> (if ?n > 2 then 1 / real ((?n - 1) * (?n - 2)) else 1) * ?S v \<le> 1"
    if v: "v \<in> set ?V" for v
  proof -
    from betweenness_sum_bounds [OF distinct_node_list v, of G]
    have b: "0 \<le> ?S v" "?S v \<le> real ((?n - 1) * (?n - 2))" by auto
    show ?thesis
    proof (cases "?n > 2")
      case True
      then have "0 < real ((?n - 1) * (?n - 2))" by simp
      with b True show ?thesis by (simp add: divide_le_eq_1 del: of_nat_mult)
    next
      case False
      then have "(?n - 1) * (?n - 2) = 0" by auto
      with b False show ?thesis by simp
    qed
  qed
  then show ?thesis
    by (simp add: ref_betweenness_centrality_def Let_def list_all_iff)
qed

lemma nx_contract_ref: "nx_contract networkx_ref"
  using ref_average_clustering_bounds ref_betweenness_bounds
  by (simp add: nx_contract_def networkx_ref_def)

subsection \<open>Reachability of the concrete sessions\<close>

lemma reachable_session0: "reachable networkx_ref session0"
  unfolding session0_def by (intro reachable.player reachable.new)

lemma reachable_session5: "reachable networkx_ref session5"
  unfolding session5_def foldl.simps by (intro reachable.turn reachable_session0)

subsection \<open>Reachable grids keep connections mutual\<close>

lemma step_neuron_keeps:
  "connections (snd (step_neuron level regs n)) = connections n
   \<and> id_n (snd (step_neuron level regs n)) = id_n n
   \<and> x_n (snd (step_neuron level regs n)) = x_n n
   \<and> y_n (snd (step_neuron level regs n)) = y_n n"
  by (cases "type_n n") (simp_all add: step_neuron_def Let_def)

lemma map_of_simulate_step:
  "map_of (neurons (simulate_step g)) a =
     map_option (\<lambda>n. (snd (step_neuron (consciousness_level g) (neurons g) n))
                       \<lparr>activation := fst (step_neuron (consciousness_level g) (neurons g) n)\<rparr>)
                (map_of (neurons g) a)"
  by (simp add: simulate_step_neurons map_of_map)

lemma keys_ok_simulate_step: "keys_ok g \<Longrightarrow> keys_ok (simulate_step g)"
  using simulate_step_fields [of g] by (simp add: keys_ok_def) (metis length_map)

lemma symmetricD:
  assumes "symmetric g" and "map_of (neurons g) a = Some na" and "b \<in> set (connections na)"
  shows "(\<exists>nb. map_of (neurons g) b = Some nb \<and> a \<in> set (connections nb))
         \<and> has_edge (network g) a b"
  using assms unfolding symmetric_def by blast

lemma symmetric_simulate_step:
  assumes "symmetric g"
  shows "symmetric (simulate_step g)"
  unfolding symmetric_def
proof (intro allI impI, elim conjE)
  fix a na b
  assume a: "map_of (neurons (simulate_step g)) a = Some na" and b: "b \<in> set (connections na)"
  from a obtain na0 where na0: "map_of (neurons g) a = Some na0" "connections na = connections na0"
    by (auto simp: map_of_simulate_step step_neuron_keeps)
  from b na0(2) have "b \<in> set (connections na0)" by simp
  from symmetricD [OF assms na0(1) this]
  obtain nb0 where nb0: "map_of (neurons g) b = Some nb0" "a \<in> set (connections nb0)"
    and e: "has_edge (network g) a b"
    by blast
  from nb0 obtain nb where "map_of (neurons (simulate_step g)) b = Some nb"
    "connections nb = connections nb0"
    by (auto simp: map_of_simulate_step step_neuron_keeps)
  with nb0 e show "(\<exists>nb. map_of (neurons (simulate_step g)) b = Some nb \<and> a \<in> set (connections nb))
                   \<and> has_edge (network (simulate_step g)) a b"
    by (auto simp: simulate_step_fields)
qed

lemma reachable_grid_mutual:
  assumes "reachable_grid lib g"
  shows "keys_ok g \<and> symmetric g"
  using assms
proof (induction rule: reachable_grid.induct)
  case (init n)
  show ?case by (simp add: keys_ok_def symmetric_def ConsciousnessGrid_init_def)
next
  case (place g x y t pw pid r g')
  show ?case
  proof (cases r)
    case None
    with place.hyps have "g' = g" by (auto dest: place_neuron_NoneD)
    with place.IH show ?thesis by simp
  next
    case (Some nr')
    with place.hyps place.IH place_neuron_preserves [of g x y t pw pid nr' g']
    show ?thesis by simp
  qed
next
  case (step g)
  then show ?case by (simp add: keys_ok_simulate_step symmetric_simulate_step)
next
  case (score g c g')
  from calculate_fields [OF score.hyps(2)]
  have eq: "neurons g' = neurons g" "network g' = network g" by simp_all
  show ?case using score.IH unfolding keys_ok_def symmetric_def eq .
qed

lemma reachable_grid_session1: "reachable_grid networkx_ref (grid_G session1)"
  unfolding session1_def
  by (intro reachable_grid_of_session reachable.turn reachable_session0)

subsection \<open>More concrete states\<close>

lemma row3_eval:
  "row3 =
     \<lparr>size_g = 19,
      grid = (replicate 19 (replicate 19 None))
               [0 := (replicate 19 None)[0 := Some 0],
                1 := (replicate 19 None)[0 := Some 1],
                2 := (replicate 19 None)[0 := Some 2]],
      neurons = [(0, \<lparr>id_n = 0, x_n = 0, y_n = 0, type_n = PROCESSOR, processing_power = 5,
                       connections = [1, 2], activation = 0, memory_state = 0\<rparr>),
                 (1, \<lparr>id_n = 1, x_n = 1, y_n = 0, type_n = PROCESSOR, processing_power = 5,
                       connections = [0, 2], activation = 0, memory_state = 0\<rparr>),
                 (2, \<lparr>id_n = 2, x_n = 2, y_n = 0, type_n = PROCESSOR, processing_power = 5,
                       connections = [0, 1], activation = 0, memory_state = 0\<rparr>)],
      network = \<lparr>nodes = [(0, Some ''alice''), (1, Some ''alice''), (2, Some ''alice'')],
                  edges = [(1, 0), (2, 0), (2, 1)]\<rparr>,
      consciousness_level = 0, emergence_patterns = []\<rparr>"
  by (simp add: row3_def placed_def run_defs numeral_2_eq_2)




lemma session1_strong_eval:
  "session1_strong =
     \<lparr>grid_G =
        \<lparr>size_g = 19,
         grid = (replicate 19 (replicate 19 None))[0 := (replicate 19 None)[0 := Some 0]],
         neurons = [(0, \<lparr>id_n = 0, x_n = 0, y_n = 0, type_n = SENSOR, processing_power = 7,
                          connections = [], activation = 0, memory_state = 0\<rparr>)],
         network = \<lparr>nodes = [(0, Some ''alice'')], edges = []\<rparr>,
         consciousness_level = 0, emergence_patterns = []\<rparr>,
      players = [''alice'' \<mapsto> \<lparr>type_pl = ''single'', neurons_placed = 1,
                                 consciousness_achieved = False, peak_consciousness = 0\<rparr>],
      turn = 1, max_turns = 100, winner = None\<rparr>"
  by (simp add: session1_strong_def run_defs)

subsection \<open>What the detector returns\<close>

lemma no_synchronization_pattern:
  "Synchronization \<notin> type_p ` set (detect_consciousness_patterns lib g)"
proof -
  have "Synchronization \<notin> type_p ` set (loop_patterns regs cycles ps)"
    if "Synchronization \<notin> type_p ` set ps" for regs cycles ps
    using that by (induction regs cycles ps rule: loop_patterns.induct)
                  (auto simp: Let_def split: option.splits)
  then have "Synchronization \<notin> type_p ` set (loop_patterns (neurons g) cycles [])" for cycles
    by simp
  then show ?thesis
    by (auto simp: detect_consciousness_patterns_def hierarchy_patterns_def
          attractor_patterns_def Let_def split: option.splits if_splits)
qed

subsection \<open>What the activation step reads\<close>

lemma map_of_agree:
  assumes "list_all2 agree r1 r2"
  shows "rel_option (\<lambda>n1 n2. agree (c, n1) (c, n2)) (map_of r1 c) (map_of r2 c)"
  using assms by (induction rule: list_all2_induct) (auto simp: agree_def)

lemma input_sum_agree:
  assumes "list_all2 agree r1 r2" and "agree (k, n1) (k, n2)"
  shows "input_sum r1 n1 = input_sum r2 n2"
proof -
  let ?f = "\<lambda>regs neuron acc conn_id.
              case map_of regs conn_id of
                None \<Rightarrow> acc
              | Some conn_neuron \<Rightarrow>
                  acc + activation conn_neuron *
                    (1.0 / (1.0 + \<bar>processing_power neuron - processing_power conn_neuron\<bar>))"
  have step: "?f r1 n1 acc c = ?f r2 n2 acc c" for acc c
    using map_of_agree [OF assms(1), of c] assms(2)
    by (auto simp: agree_def elim!: option.rel_cases)
  have "foldl (?f r1 n1) acc cs = foldl (?f r2 n2) acc cs" for acc cs
    by (induction cs arbitrary: acc) (simp_all add: step)
  with assms(2) show ?thesis by (simp add: input_sum_def agree_def)
qed

lemma step_neuron_agree:
  assumes "list_all2 agree r1 r2" and "agree (k, n1) (k, n2)"
  shows "fst (step_neuron level r1 n1) = fst (step_neuron level r2 n2)
         \<and> memory_state (snd (step_neuron level r1 n1)) = memory_state (snd (step_neuron level r2 n2))"
  using input_sum_agree [OF assms] assms(2)
  by (cases "type_n n2") (simp_all add: step_neuron_def agree_def Let_def)

text \<open>
  On any two grid objects whose registries agree entry by entry and whose levels are equal,
  the step computes the same activations and memory states.
\<close>

lemma simulate_step_agree:
  assumes "list_all2 agree (neurons g1) (neurons g2)"
      and "consciousness_level g1 = consciousness_level g2"
  shows "map (\<lambda>(k, n). (k, activation n, memory_state n)) (neurons (simulate_step g1))
         = map (\<lambda>(k, n). (k, activation n, memory_state n)) (neurons (simulate_step g2))"
proof -
  have "list_all2 (\<lambda>p q. agree p q \<longrightarrow>
            (case p of (k, n) \<Rightarrow> (k, fst (step_neuron (consciousness_level g1) (neurons g1) n),
                              memory_state (snd (step_neuron (consciousness_level g1) (neurons g1) n))))
          = (case q of (k, n) \<Rightarrow> (k, fst (step_neuron (consciousness_level g2) (neurons g2) n),
                              memory_state (snd (step_neuron (consciousness_level g2) (neurons g2) n)))))
          (neurons g1) (neurons g2)"
    using assms(1)
  proof (rule list_all2_mono)
    fix p q :: "nat \<times> Neuron"
    show "agree p q \<longrightarrow>
            (case p of (k, n) \<Rightarrow> (k, fst (step_neuron (consciousness_level g1) (neurons g1) n),
                              memory_state (snd (step_neuron (consciousness_level g1) (neurons g1) n))))
          = (case q of (k, n) \<Rightarrow> (k, fst (step_neuron (consciousness_level g2) (neurons g2) n),
                              memory_state (snd (step_neuron (consciousness_level g2) (neurons g2) n))))"
    proof
      assume a: "agree p q"
      obtain k n1 n2 where pq: "p = (k, n1)" "q = (k, n2)"
        using a by (cases p, cases q) (auto simp: agree_def)
      from step_neuron_agree [OF assms(1), of k n1 n2 "consciousness_level g1"] a pq assms(2)
      show "(case p of (k, n) \<Rightarrow> (k, fst (step_neuron (consciousness_level g1) (neurons g1) n),
                              memory_state (snd (step_neuron (consciousness_level g1) (neurons g1) n))))
          = (case q of (k, n) \<Rightarrow> (k, fst (step_neuron (consciousness_level g2) (neurons g2) n),
                              memory_state (snd (step_neuron (consciousness_level g2) (neurons g2) n))))"
        by simp
    qed
  qed
  with assms(1) have "list_all2 (\<lambda>p q.
            (case p of (k, n) \<Rightarrow> (k, fst (step_neuron (consciousness_level g1) (neurons g1) n),
                              memory_state (snd (step_neuron (consciousness_level g1) (neurons g1) n))))
          = (case q of (k, n) \<Rightarrow> (k, fst (step_neuron (consciousness_level g2) (neurons g2) n),
                              memory_state (snd (step_neuron (consciousness_level g2) (neurons g2) n)))))
          (neurons g1) (neurons g2)"
    by (simp add: list_all2_conv_all_nth)
  then have "map (\<lambda>(k, n). (k, fst (step_neuron (consciousness_level g1) (neurons g1) n),
                              memory_state (snd (step_neuron (consciousness_level g1) (neurons g1) n))))
                 (neurons g1)
           = map (\<lambda>(k, n). (k, fst (step_neuron (consciousness_level g2) (neurons g2) n),
                              memory_state (snd (step_neuron (consciousness_level g2) (neurons g2) n))))
                 (neurons g2)"
    by (simp add: list_all2_conv_all_nth list_eq_iff_nth_eq)
  then show ?thesis
    by (simp add: simulate_step_neurons split_def comp_def)
qed

subsection \<open>What the export keeps\<close>

lemma NeuronType_value_inj: "NeuronType_value a = NeuronType_value b \<Longrightarrow> a = b"
  by (cases a; cases b) simp_all

lemma export_neuron_inj:
  "export_neuron n1 = export_neuron n2 \<Longrightarrow>
     x_n n1 = x_n n2 \<and> y_n n1 = y_n n2 \<and> type_n n1 = type_n n2
     \<and> activation n1 = activation n2 \<and> connections n1 = connections n2"
  by (auto simp: export_neuron_def dest: NeuronType_value_inj)

lemma map_eq_through:
  assumes "map f xs = map f ys" and "\<And>a b. f a = f b \<Longrightarrow> h a = h b"
  shows "map h xs = map h ys"
proof -
  from assms(1) have len: "length xs = length ys" by (rule map_eq_imp_length_eq)
  have "h (xs ! i) = h (ys ! i)" if "i < length xs" for i
  proof -
    from that len have "map f xs ! i = f (xs ! i)" "map f ys ! i = f (ys ! i)" by simp_all
    with assms(1) have "f (xs ! i) = f (ys ! i)" by simp
    then show ?thesis by (rule assms(2))
  qed
  with len show ?thesis by (simp add: list_eq_iff_nth_eq)
qed

lemma occupancy_of_bits:
  fixes xs ys :: "nat option list list"
  assumes "map (map (\<lambda>cell :: nat option. if cell \<noteq> None then 1 else (0::nat))) xs
           = map (map (\<lambda>cell. if cell \<noteq> None then 1 else 0)) ys"
  shows "map (map (\<lambda>cell. cell \<noteq> None)) xs = map (map (\<lambda>cell. cell \<noteq> None)) ys"
  using assms
proof (rule map_eq_through)
  fix r r' :: "nat option list"
  assume "map (\<lambda>cell. if cell \<noteq> None then 1 else (0::nat)) r
          = map (\<lambda>cell. if cell \<noteq> None then 1 else 0) r'"
  then show "map (\<lambda>cell. cell \<noteq> None) r = map (\<lambda>cell. cell \<noteq> None) r'"
  proof (rule map_eq_through)
    fix a b :: "nat option"
    assume "(if a \<noteq> None then 1 else (0::nat)) = (if b \<noteq> None then 1 else 0)"
    then show "(a \<noteq> None) = (b \<noteq> None)" by (simp split: if_splits)
  qed
qed

subsection \<open>Which neurons the loop connects\<close>

lemma within_reach_iff: "within_reach x y e \<longleftrightarrow> (x - x_n e)\<^sup>2 + (y - y_n e)\<^sup>2 \<le> 25"
proof -
  have "real_of_int ((x - x_n e)\<^sup>2 + (y - y_n e)\<^sup>2) \<le> 25
        \<longleftrightarrow> (x - x_n e)\<^sup>2 + (y - y_n e)\<^sup>2 \<le> 25"
    by linarith
  then show ?thesis by (simp add: within_reach_def sqrt_le_5_iff)
qed

lemma can_connect_reach:
  "can_connect nr e \<longleftrightarrow> within_reach (x_n nr) (y_n nr) e \<and> id_n e \<notin> set (connections nr)"
  by (simp add: can_connect_iff within_reach_iff)

text \<open>The loop with the geometry of what it selects.\<close>

lemma connect_loop_selection:
  assumes "connect_loop regs nr G m = (regs', nr', G', m')" and "distinct (map fst regs)"
  shows "\<exists>sel. connections nr' = connections nr @ sel \<and> distinct sel
           \<and> (\<forall>b\<in>set sel. \<exists>e. (b, e) \<in> set regs \<and> within_reach (x_n nr) (y_n nr) e)"
  using assms
proof (induction regs arbitrary: nr G m regs' nr' G' m')
  case Nil
  then show ?case by simp
next
  case (Cons p regs)
  obtain k e where p: "p = (k, e)" by (cases p)
  from Cons.prems(2) p have d: "distinct (map fst regs)" and kf: "k \<notin> fst ` set regs" by auto
  show ?case
  proof (cases "can_connect nr e \<and> m < 4")
    case True
    let ?nr = "nr\<lparr>connections := connections nr @ [k]\<rparr>"
    from True Cons.prems(1) p obtain r where
      rec: "connect_loop regs ?nr (add_edge (id_n nr) k G) (m + 1) = (r, nr', G', m')"
      by (auto split: prod.splits)
    from Cons.IH [OF rec d] obtain sel where
      sel: "connections nr' = connections ?nr @ sel" "distinct sel"
           "\<forall>b\<in>set sel. \<exists>e. (b, e) \<in> set regs \<and> within_reach (x_n ?nr) (y_n ?nr) e"
      by blast
    from sel(3) kf have "k \<notin> set sel" by force
    with sel True p show ?thesis
      by (intro exI [of _ "k # sel"]) (auto simp: can_connect_reach)
  next
    case False
    with Cons.prems(1) p obtain r where
      rec: "connect_loop regs nr G m = (r, nr', G', m')"
      by (auto split: prod.splits)
    from Cons.IH [OF rec d] obtain sel where
      sel: "connections nr' = connections nr @ sel" "distinct sel"
           "\<forall>b\<in>set sel. \<exists>e. (b, e) \<in> set regs \<and> within_reach (x_n nr) (y_n nr) e"
      by blast
    from sel(3) have "\<forall>b\<in>set sel. \<exists>e. (b, e) \<in> set (p # regs)
                         \<and> within_reach (x_n nr) (y_n nr) e"
      by fastforce
    with sel(1,2) show ?thesis by blast
  qed
qed

lemma connect_loop_entries_reach:
  "connect_loop regs nr G m = (regs', nr', G', m') \<Longrightarrow>
     list_all2 (\<lambda>(k, e) (k', e'). k' = k \<and>
                  (e' = e \<or> (e' = e\<lparr>connections := connections e @ [id_n nr]\<rparr>
                             \<and> within_reach (x_n nr) (y_n nr) e)))
       regs regs'"
proof (induction regs arbitrary: nr G m regs' nr' G' m')
  case Nil
  then show ?case by simp
next
  case (Cons p regs)
  obtain k e where p: "p = (k, e)" by (cases p)
  show ?case
  proof (cases "can_connect nr e \<and> m < 4")
    case True
    let ?nr = "nr\<lparr>connections := connections nr @ [k]\<rparr>"
    from True Cons.prems p obtain r where
      rec: "connect_loop regs ?nr (add_edge (id_n nr) k G) (m + 1) = (r, nr', G', m')"
      and regs': "regs' = (k, e\<lparr>connections := connections e @ [id_n nr]\<rparr>) # r"
      by (auto split: prod.splits)
    from Cons.IH [OF rec] p regs' True show ?thesis by (simp add: can_connect_reach)
  next
    case False
    with Cons.prems p obtain r where
      rec: "connect_loop regs nr G m = (r, nr', G', m')" and regs': "regs' = (k, e) # r"
      by (auto split: prod.splits)
    from Cons.IH [OF rec] p regs' show ?thesis by simp
  qed
qed

text \<open>An existing neuron in reach that the cap has not yet shut out is connected.\<close>

lemma connect_loop_reaches:
  assumes "connect_loop regs nr G m = (regs', nr', G', m')"
      and "distinct (map fst regs)"
      and "\<forall>(k, e)\<in>set regs. id_n e = k"
      and "set (connections nr) \<inter> fst ` set regs = {}"
      and "i < length regs" and "regs ! i = (k, e)"
      and "within_reach (x_n nr) (y_n nr) e"
      and "m + eligible_before (x_n nr) (y_n nr) regs i < 4"
  shows "regs' ! i = (k, e\<lparr>connections := connections e @ [id_n nr]\<rparr>)"
  using assms
proof (induction regs arbitrary: nr G m regs' nr' G' m' i)
  case Nil
  then show ?case by simp
next
  case (Cons p regs)
  obtain k0 e0 where p: "p = (k0, e0)" by (cases p)
  from Cons.prems(2) p have d: "distinct (map fst regs)" and kf: "k0 \<notin> fst ` set regs" by auto
  from Cons.prems(3) p have ids: "\<forall>(k, e)\<in>set regs. id_n e = k" and id0: "id_n e0 = k0" by auto
  from Cons.prems(4) p have fresh0: "k0 \<notin> set (connections nr)"
    and fresh: "set (connections nr) \<inter> fst ` set regs = {}" by auto
  have cc: "can_connect nr e0 \<longleftrightarrow> within_reach (x_n nr) (y_n nr) e0"
    using id0 fresh0 by (simp add: can_connect_reach)
  show ?case
  proof (cases i)
    case 0
    from 0 Cons.prems(6) p have ke: "k = k0" "e = e0" by simp_all
    from Cons.prems(7,8) ke have "can_connect nr e0 \<and> m < 4"
      by (simp add: cc)
    with Cons.prems(1) p 0 ke show ?thesis by (auto split: prod.splits)
  next
    case (Suc j)
    with Cons.prems(5,6) have j: "j < length regs" "regs ! j = (k, e)" by simp_all
    show ?thesis
    proof (cases "can_connect nr e0 \<and> m < 4")
      case True
      let ?nr = "nr\<lparr>connections := connections nr @ [k0]\<rparr>"
      from True Cons.prems(1) p obtain r where
        rec: "connect_loop regs ?nr (add_edge (id_n nr) k0 G) (m + 1) = (r, nr', G', m')"
        and regs': "regs' = (k0, e0\<lparr>connections := connections e0 @ [id_n nr]\<rparr>) # r"
        by (auto split: prod.splits)
      have f: "set (connections ?nr) \<inter> fst ` set regs = {}" using fresh kf by auto
      from True cc Cons.prems(8) Suc p
      have b: "(m + 1) + eligible_before (x_n ?nr) (y_n ?nr) regs j < 4"
        by (simp add: eligible_before_def)
      from Cons.IH [OF rec d ids f j] Cons.prems(7) b
      have "r ! j = (k, e\<lparr>connections := connections e @ [id_n ?nr]\<rparr>)" by simp
      with regs' Suc show ?thesis by simp
    next
      case False
      with Cons.prems(1) p obtain r where
        rec: "connect_loop regs nr G m = (r, nr', G', m')" and regs': "regs' = (k0, e0) # r"
        by (auto split: prod.splits)
      from False cc Cons.prems(8) Suc p
      have b: "m + eligible_before (x_n nr) (y_n nr) regs j < 4"
        by (auto simp: eligible_before_def)
      from Cons.IH [OF rec d ids fresh j Cons.prems(7) b] regs' Suc show ?thesis by simp
    qed
  qed
qed

subsection \<open>Cells under a placement\<close>

lemma norm_index_less: "norm_index len i = Some a \<Longrightarrow> a < len"
  by (auto simp: norm_index_def split: if_splits)

lemma py_index_cong_norm:
  "norm_index (length xs) j = norm_index (length xs) i \<Longrightarrow> py_index xs j = py_index xs i"
  by (simp add: py_index_def)

lemma py_index_setitem:
  assumes "py_setitem xs i v = Inr xs'"
  shows "py_index xs' j =
           (if norm_index (length xs) j = norm_index (length xs) i then Inr v else py_index xs j)"
proof -
  from assms obtain a where a: "norm_index (length xs) i = Some a" "xs' = xs[a := v]"
    by (auto simp: py_setitem_def split: option.splits)
  from a(1) have "a < length xs" by (rule norm_index_less)
  with a show ?thesis
    by (auto simp: py_index_def split: option.splits dest: norm_index_less)
qed

lemma place_neuron_cellsD:
  assumes "place_neuron x y t pw pid g = Inr (Some nr', g')"
  shows "\<exists>row row'. py_index (grid g) x = Inr row \<and> py_index row y = Inr None
           \<and> py_setitem row y (Some (length (neurons g))) = Inr row'
           \<and> py_setitem (grid g) x row' = Inr (grid g')"
proof (cases "py_index (grid g) x")
  case (Inl e)
  with assms show ?thesis by (simp add: place_neuron_def)
next
  case (Inr row)
  note row = this
  show ?thesis
  proof (cases "py_index row y")
    case (Inl e)
    with row assms show ?thesis by (simp add: place_neuron_def)
  next
    case (Inr cell)
    note cell = this
    show ?thesis
    proof (cases cell)
      case (Some occupant)
      with row cell assms show ?thesis by (simp add: place_neuron_def)
    next
      case None
      obtain regs nr G made where l: "connect_loop (neurons g)
             \<lparr>id_n = length (neurons g), x_n = x, y_n = y, type_n = t, processing_power = pw,
              connections = [], activation = 0, memory_state = 0\<rparr> (network g) 0
             = (regs, nr, G, made)"
        by (metis prod_cases4)
      show ?thesis
      proof (cases "py_setitem row y (Some (length (neurons g)))")
        case (Inl e)
        with row cell None l assms show ?thesis by (simp add: place_neuron_def)
      next
        case (Inr row')
        note row' = this
        show ?thesis
        proof (cases "py_setitem (grid g) x row'")
          case (Inl e)
          with row cell None l row' assms show ?thesis by (simp add: place_neuron_def)
        next
          case (Inr cells)
          with row cell None l row' assms have "grid g' = cells"
            by (auto simp: place_neuron_def Let_def)
          with row cell None row' Inr show ?thesis by simp
        qed
      qed
    qed
  qed
qed

lemma cell_at_place_new:
  assumes "place_neuron x y t pw pid g = Inr (Some nr', g')"
  shows "cell_at (grid g') x y = Some (length (neurons g))"
proof -
  from place_neuron_cellsD [OF assms] obtain row row' where
    r: "py_setitem row y (Some (length (neurons g))) = Inr row'"
       "py_setitem (grid g) x row' = Inr (grid g')"
    by blast
  show ?thesis
    by (simp add: cell_at_def py_index_setitem [OF r(2)] py_index_setitem [OF r(1)])
qed

lemma cell_at_place_old:
  assumes "place_neuron x y t pw pid g = Inr (Some nr', g')"
      and "cell_at (grid g) x' y' = Some k"
  shows "cell_at (grid g') x' y' = Some k"
proof -
  from place_neuron_cellsD [OF assms(1)] obtain row row' where
    r: "py_index (grid g) x = Inr row" "py_index row y = Inr None"
       "py_setitem row y (Some (length (neurons g))) = Inr row'"
       "py_setitem (grid g) x row' = Inr (grid g')"
    by blast
  show ?thesis
  proof (cases "norm_index (length (grid g)) x' = norm_index (length (grid g)) x")
    case False
    with assms(2) show ?thesis
      by (simp add: cell_at_def py_index_setitem [OF r(4)])
  next
    case True
    from py_index_cong_norm [OF True] r(1) have row: "py_index (grid g) x' = Inr row"
      by simp
    have "norm_index (length row) y' \<noteq> norm_index (length row) y"
    proof
      assume "norm_index (length row) y' = norm_index (length row) y"
      from py_index_cong_norm [OF this] r(2) have "py_index row y' = Inr None" by simp
      with row assms(2) show False by (simp add: cell_at_def)
    qed
    with True row assms(2) show ?thesis
      by (simp add: cell_at_def py_index_setitem [OF r(4)] py_index_setitem [OF r(3)])
  qed
qed

subsection \<open>Reachable grids keep the geometry\<close>

lemma geoD:
  assumes "geo g" and "(k, e) \<in> set (neurons g)"
  shows "id_n e = k" and "cell_at (grid g) (x_n e) (y_n e) = Some k"
    and "distinct (connections e)"
    and "\<And>b. b \<in> set (connections e) \<Longrightarrow>
           b \<noteq> k \<and> (\<exists>eb. map_of (neurons g) b = Some eb
                          \<and> (x_n e - x_n eb)\<^sup>2 + (y_n e - y_n eb)\<^sup>2 \<le> 25)"
proof -
  from assms have all: "id_n e = k \<and> cell_at (grid g) (x_n e) (y_n e) = Some k
      \<and> distinct (connections e)
      \<and> (\<forall>b\<in>set (connections e). b \<noteq> k \<and>
             (case map_of (neurons g) b of
                None \<Rightarrow> False
              | Some eb \<Rightarrow> (x_n e - x_n eb)\<^sup>2 + (y_n e - y_n eb)\<^sup>2 \<le> 25))"
    unfolding geo_def list_all_iff by fast
  from all show "id_n e = k" and "cell_at (grid g) (x_n e) (y_n e) = Some k"
    and "distinct (connections e)"
    by simp_all
  fix b assume "b \<in> set (connections e)"
  with all have "b \<noteq> k \<and>
             (case map_of (neurons g) b of
                None \<Rightarrow> False
              | Some eb \<Rightarrow> (x_n e - x_n eb)\<^sup>2 + (y_n e - y_n eb)\<^sup>2 \<le> 25)"
    by blast
  then show "b \<noteq> k \<and> (\<exists>eb. map_of (neurons g) b = Some eb
                          \<and> (x_n e - x_n eb)\<^sup>2 + (y_n e - y_n eb)\<^sup>2 \<le> 25)"
    by (cases "map_of (neurons g) b") simp_all
qed

lemma geoI:
  assumes "keys_ok g"
      and "\<And>k e. (k, e) \<in> set (neurons g) \<Longrightarrow>
             id_n e = k \<and> cell_at (grid g) (x_n e) (y_n e) = Some k \<and> distinct (connections e)
             \<and> (\<forall>b\<in>set (connections e). b \<noteq> k \<and>
                    (\<exists>eb. map_of (neurons g) b = Some eb
                          \<and> (x_n e - x_n eb)\<^sup>2 + (y_n e - y_n eb)\<^sup>2 \<le> 25))"
  shows "geo g"
  unfolding geo_def list_all_iff
proof (intro conjI ballI)
  show "keys_ok g" by (rule assms(1))
next
  fix p assume p: "p \<in> set (neurons g)"
  obtain k e where pe: "p = (k, e)" by (cases p)
  from assms(2) [of k e] p pe
  show "case p of (k, e) \<Rightarrow>
          id_n e = k \<and> cell_at (grid g) (x_n e) (y_n e) = Some k \<and> distinct (connections e)
          \<and> (\<forall>b\<in>set (connections e). b \<noteq> k \<and>
                (case map_of (neurons g) b of
                   None \<Rightarrow> False
                 | Some eb \<Rightarrow> (x_n e - x_n eb)\<^sup>2 + (y_n e - y_n eb)\<^sup>2 \<le> 25))"
    by (auto split: option.splits)
qed

lemma geo_init: "geo (ConsciousnessGrid_init n)"
  by (simp add: geo_def keys_ok_def ConsciousnessGrid_init_def)

lemma geo_place_neuron:
  assumes geo: "geo g" and pl: "place_neuron x y t pw pid g = Inr (Some nr', g')"
  shows "geo g'"
proof (rule geoI)
  let ?n = "length (neurons g)"
  let ?nr = "\<lparr>id_n = ?n, x_n = x, y_n = y, type_n = t, processing_power = pw,
              connections = [], activation = 0, memory_state = 0\<rparr>"
  from geo have ok: "keys_ok g" by (simp add: geo_def)
  from place_neuron_SomeD [OF pl] obtain regs' G' m' where
    loop: "connect_loop (neurons g) ?nr (network g) 0 = (regs', nr', G', m')"
    and regs: "neurons g' = dict_set regs' ?n nr'"
    by blast
  have keys': "map fst regs' = map fst (neurons g)"
    using loop by (rule connect_loop_keys)
  have fresh: "?n \<notin> fst ` set (neurons g)" using ok by (rule keys_ok_fresh)
  then have fresh': "?n \<notin> fst ` set regs'" using keys' by (metis set_map)
  have regs_app: "neurons g' = regs' @ [(?n, nr')]"
    using regs fresh' by (simp add: dict_set_fresh)
  have dist: "distinct (map fst (neurons g))" using ok by (rule keys_ok_distinct)
  have dist'': "distinct (map fst (neurons g'))"
    using dist keys' fresh fresh' regs_app by simp
  have lens: "length regs' = ?n" using keys' by (metis length_map)
  show "keys_ok g'"
    using ok keys' regs_app lens by (simp add: keys_ok_def)
  from connect_loop_neuron [OF loop] obtain sel0 where nr': "nr' = ?nr\<lparr>connections := sel0\<rparr>"
    by auto
  from connect_loop_selection [OF loop dist] obtain sel where
    sel: "connections nr' = sel" "distinct sel"
         "\<forall>b\<in>set sel. \<exists>e. (b, e) \<in> set (neurons g) \<and> within_reach x y e"
    by auto
  have ent: "list_all2 (\<lambda>(k, e) (k', e'). k' = k \<and>
                  (e' = e \<or> (e' = e\<lparr>connections := connections e @ [?n]\<rparr>
                             \<and> within_reach x y e)))
       (neurons g) regs'"
    using connect_loop_entries_reach [OF loop] by simp
  have new_look: "map_of (neurons g') ?n = Some nr'"
    using dist'' regs_app by (intro map_of_is_SomeI) simp_all
  have old_look: "\<exists>eb'. map_of (neurons g') b = Some eb' \<and> x_n eb' = x_n eb \<and> y_n eb' = y_n eb"
    if "(b, eb) \<in> set (neurons g)" for b eb
  proof -
    from list_all2_entryD1 [OF ent that] obtain eb' where
      eb': "(b, eb') \<in> set regs'" "eb' = eb \<or> eb' = eb\<lparr>connections := connections eb @ [?n]\<rparr>"
      by auto
    from eb'(1) regs_app have "(b, eb') \<in> set (neurons g')" by simp
    with dist'' have "map_of (neurons g') b = Some eb'" by (rule map_of_is_SomeI)
    with eb'(2) show ?thesis by auto
  qed
  fix k e'
  assume mem: "(k, e') \<in> set (neurons g')"
  show "id_n e' = k \<and> cell_at (grid g') (x_n e') (y_n e') = Some k \<and> distinct (connections e')
        \<and> (\<forall>b\<in>set (connections e'). b \<noteq> k \<and>
               (\<exists>eb. map_of (neurons g') b = Some eb
                     \<and> (x_n e' - x_n eb)\<^sup>2 + (y_n e' - y_n eb)\<^sup>2 \<le> 25))"
  proof (cases "k = ?n")
    case True
    with mem new_look dist'' have e': "e' = nr'"
      by (metis map_of_is_SomeI option.inject)
    have "\<forall>b\<in>set sel. b \<noteq> ?n \<and>
               (\<exists>eb. map_of (neurons g') b = Some eb \<and> (x - x_n eb)\<^sup>2 + (y - y_n eb)\<^sup>2 \<le> 25)"
    proof
      fix b assume "b \<in> set sel"
      with sel(3) obtain eb where eb: "(b, eb) \<in> set (neurons g)" "within_reach x y eb" by blast
      from eb(1) fresh have "b \<noteq> ?n" by force
      moreover from old_look [OF eb(1)] eb(2)
      have "\<exists>eb. map_of (neurons g') b = Some eb \<and> (x - x_n eb)\<^sup>2 + (y - y_n eb)\<^sup>2 \<le> 25"
        by (auto simp: within_reach_iff)
      ultimately show "b \<noteq> ?n \<and>
               (\<exists>eb. map_of (neurons g') b = Some eb \<and> (x - x_n eb)\<^sup>2 + (y - y_n eb)\<^sup>2 \<le> 25)"
        by simp
    qed
    with True e' nr' sel(1,2) cell_at_place_new [OF pl] show ?thesis by simp
  next
    case False
    with mem regs_app have "(k, e') \<in> set regs'" by auto
    from list_all2_entryD2 [OF ent this] obtain e where
      e: "(k, e) \<in> set (neurons g)"
      and rel: "e' = e \<or> (e' = e\<lparr>connections := connections e @ [?n]\<rparr> \<and> within_reach x y e)"
      by auto
    note old = geoD [OF geo e]
    have xy: "x_n e' = x_n e" "y_n e' = y_n e" "id_n e' = id_n e" using rel by auto
    have c: "cell_at (grid g') (x_n e') (y_n e') = Some k"
      using cell_at_place_old [OF pl old(2)] xy by simp
    have oldb: "b \<noteq> k \<and> (\<exists>eb. map_of (neurons g') b = Some eb
                     \<and> (x_n e' - x_n eb)\<^sup>2 + (y_n e' - y_n eb)\<^sup>2 \<le> 25)"
      if "b \<in> set (connections e)" for b
    proof -
      from old(4) [OF that] obtain eb where
        eb: "b \<noteq> k" "map_of (neurons g) b = Some eb"
            "(x_n e - x_n eb)\<^sup>2 + (y_n e - y_n eb)\<^sup>2 \<le> 25"
        by blast
      from old_look [OF map_of_SomeD [OF eb(2)]] eb(1,3) xy show ?thesis by auto
    qed
    have notin: "?n \<notin> set (connections e)"
    proof
      assume "?n \<in> set (connections e)"
      from old(4) [OF this] obtain eb where "map_of (neurons g) ?n = Some eb" by blast
      then have "(?n, eb) \<in> set (neurons g)" by (rule map_of_SomeD)
      with fresh show False by force
    qed
    from rel show ?thesis
    proof
      assume "e' = e"
      with old(1,3) c oldb show ?thesis by simp
    next
      assume new: "e' = e\<lparr>connections := connections e @ [?n]\<rparr> \<and> within_reach x y e"
      then have "(x_n e' - x)\<^sup>2 + (y_n e' - y)\<^sup>2 \<le> 25"
        by (simp add: within_reach_iff power2_commute)
      with new_look nr' have "\<exists>eb. map_of (neurons g') ?n = Some eb
                     \<and> (x_n e' - x_n eb)\<^sup>2 + (y_n e' - y_n eb)\<^sup>2 \<le> 25"
        by simp
      with new old(1,3) c oldb notin False xy show ?thesis by auto
    qed
  qed
qed

lemma geo_simulate_step:
  assumes "geo g"
  shows "geo (simulate_step g)"
proof (rule geoI)
  from assms have "keys_ok g" by (simp add: geo_def)
  then show "keys_ok (simulate_step g)" by (rule keys_ok_simulate_step)
  fix k e'
  assume "(k, e') \<in> set (neurons (simulate_step g))"
  then obtain e where e: "(k, e) \<in> set (neurons g)"
    and same: "id_n e' = id_n e" "x_n e' = x_n e" "y_n e' = y_n e" "connections e' = connections e"
    by (auto simp: simulate_step_neurons step_neuron_keeps)
  note old = geoD [OF assms e]
  have "b \<noteq> k \<and> (\<exists>eb. map_of (neurons (simulate_step g)) b = Some eb
                     \<and> (x_n e' - x_n eb)\<^sup>2 + (y_n e' - y_n eb)\<^sup>2 \<le> 25)"
    if "b \<in> set (connections e)" for b
  proof -
    from old(4) [OF that] obtain eb where
      eb: "b \<noteq> k" "map_of (neurons g) b = Some eb"
          "(x_n e - x_n eb)\<^sup>2 + (y_n e - y_n eb)\<^sup>2 \<le> 25"
      by blast
    then show ?thesis by (simp add: map_of_simulate_step step_neuron_keeps same)
  qed
  with old(1-3) same
  show "id_n e' = k \<and> cell_at (grid (simulate_step g)) (x_n e') (y_n e') = Some k
        \<and> distinct (connections e')
        \<and> (\<forall>b\<in>set (connections e'). b \<noteq> k \<and>
               (\<exists>eb. map_of (neurons (simulate_step g)) b = Some eb
                     \<and> (x_n e' - x_n eb)\<^sup>2 + (y_n e' - y_n eb)\<^sup>2 \<le> 25))"
    by (simp add: simulate_step_fields)
qed

lemma reachable_grid_geo:
  assumes "reachable_grid lib g"
  shows "geo g"
  using assms
proof (induction rule: reachable_grid.induct)
  case (init n)
  show ?case by (rule geo_init)
next
  case (place g x y t pw pid r g')
  show ?case
  proof (cases r)
    case None
    with place.hyps have "g' = g" by (auto dest: place_neuron_NoneD)
    with place.IH show ?thesis by simp
  next
    case (Some nr')
    with place.hyps place.IH show ?thesis by (auto intro: geo_place_neuron)
  qed
next
  case (step g)
  then show ?case by (simp add: geo_simulate_step)
next
  case (score g c g')
  from calculate_fields [OF score.hyps(2)]
  have eq: "neurons g' = neurons g" "grid g' = grid g" by simp_all
  show ?case using score.IH unfolding geo_def keys_ok_def eq .
qed

subsection \<open>At most 80 connections\<close>

lemma length_ring: "length ring = 80"
  unfolding ring_def by code_simp

lemma square_le_25D: "(d::int)\<^sup>2 \<le> 25 \<Longrightarrow> -5 \<le> d \<and> d \<le> 5"
proof -
  assume "d\<^sup>2 \<le> 25"
  then have "d\<^sup>2 \<le> 5\<^sup>2" by simp
  then have "\<bar>d\<bar> \<le> \<bar>5\<bar>" by (simp only: abs_le_square_iff)
  then show ?thesis by linarith
qed

lemma in_ring:
  assumes "dx\<^sup>2 + dy\<^sup>2 \<le> (25::int)" and "(dx, dy) \<noteq> (0, 0)"
  shows "(dx, dy) \<in> set ring"
proof -
  have "0 \<le> dy\<^sup>2" "0 \<le> dx\<^sup>2" by simp_all
  with assms(1) have "dx\<^sup>2 \<le> 25" "dy\<^sup>2 \<le> 25" by linarith+
  then have "-5 \<le> dx \<and> dx \<le> 5" "-5 \<le> dy \<and> dy \<le> 5" by (auto dest: square_le_25D)
  then have "dx \<in> set [-5..5]" "dy \<in> set [-5..5]"
    by (simp_all only: set_upto atLeastAtMost_iff)
  then have "(dx, dy) \<in> set (List.product [-5..5] [-5..5])"
    by (simp only: set_product mem_Sigma_iff)
  with assms show ?thesis
    unfolding ring_def by (simp only: set_filter mem_Collect_eq case_prod_conv) simp
qed

lemma degree_le_80:
  assumes "geo g" and "(k, e) \<in> set (neurons g)"
  shows "length (connections e) \<le> 80"
proof -
  note me = geoD [OF assms]
  define pos where "pos b = (case map_of (neurons g) b of
                               None \<Rightarrow> (0, 0)
                             | Some eb \<Rightarrow> (x_n eb - x_n e, y_n eb - y_n e))" for b
  have look: "\<exists>eb. (b, eb) \<in> set (neurons g) \<and> pos b = (x_n eb - x_n e, y_n eb - y_n e)
                \<and> (x_n e - x_n eb)\<^sup>2 + (y_n e - y_n eb)\<^sup>2 \<le> 25 \<and> b \<noteq> k"
    if "b \<in> set (connections e)" for b
    using me(4) [OF that] by (auto simp: pos_def dest: map_of_SomeD)
  have inj: "inj_on pos (set (connections e))"
  proof (rule inj_onI)
    fix b c
    assume "b \<in> set (connections e)" "c \<in> set (connections e)" "pos b = pos c"
    with look [of b] look [of c] obtain eb ec where
      bc: "(b, eb) \<in> set (neurons g)" "(c, ec) \<in> set (neurons g)"
          "x_n eb = x_n ec" "y_n eb = y_n ec"
      by auto
    from geoD(2) [OF assms(1) bc(1)] geoD(2) [OF assms(1) bc(2)] bc(3,4)
    show "b = c" by simp
  qed
  have "pos ` set (connections e) \<subseteq> set ring"
  proof
    fix p assume "p \<in> pos ` set (connections e)"
    then obtain b where b: "b \<in> set (connections e)" "p = pos b" by blast
    from look [OF b(1)] obtain eb where
      eb: "(b, eb) \<in> set (neurons g)" "pos b = (x_n eb - x_n e, y_n eb - y_n e)"
          "(x_n e - x_n eb)\<^sup>2 + (y_n e - y_n eb)\<^sup>2 \<le> 25" "b \<noteq> k"
      by blast
    have "(x_n eb - x_n e, y_n eb - y_n e) \<noteq> (0, 0)"
    proof
      assume "(x_n eb - x_n e, y_n eb - y_n e) = (0, 0)"
      then have "x_n eb = x_n e" "y_n eb = y_n e" by simp_all
      with geoD(2) [OF assms(1) eb(1)] me(2) eb(4) show False by simp
    qed
    moreover from eb(3) have "(x_n eb - x_n e)\<^sup>2 + (y_n eb - y_n e)\<^sup>2 \<le> 25"
      by (simp add: power2_commute)
    ultimately show "p \<in> set ring" using b(2) eb(2) by (simp add: in_ring)
  qed
  then have "card (pos ` set (connections e)) \<le> card (set ring)"
    by (intro card_mono) simp_all
  also have "\<dots> \<le> length ring" by (rule card_length)
  finally have "card (pos ` set (connections e)) \<le> 80" by (simp add: length_ring)
  moreover have "card (pos ` set (connections e)) = length (connections e)"
    using inj me(3) by (simp add: card_image distinct_card)
  ultimately show ?thesis by simp
qed

subsection \<open>Six processors in a row\<close>

lemma place_neuron_free:
  assumes "py_index (grid g) x = Inr row" and "py_index row y = Inr None"
      and "connect_loop (neurons g)
             \<lparr>id_n = length (neurons g), x_n = x, y_n = y, type_n = t, processing_power = pw,
              connections = [], activation = 0, memory_state = 0\<rparr> (network g) 0
             = (regs, nr, G, made)"
      and "py_setitem row y (Some (length (neurons g))) = Inr row'"
      and "py_setitem (grid g) x row' = Inr cells"
  shows "place_neuron x y t pw pid g =
           Inr (Some nr, g\<lparr>neurons := dict_set regs (length (neurons g)) nr, grid := cells,
                            network := add_node (length (neurons g)) pid G\<rparr>)"
  using assms by (simp add: place_neuron_def Let_def)

lemmas loop_defs =
  can_connect_iff add_edge_def ensure_node_def has_node_def has_edge_def Let_def processor_def

lemma row4_eval:
  "placed 3 0 row3 =
     \<lparr>size_g = 19,
      grid = (replicate 19 (replicate 19 None))
               [0 := (replicate 19 None)[0 := Some 0],
                1 := (replicate 19 None)[0 := Some 1],
                2 := (replicate 19 None)[0 := Some 2],
                3 := (replicate 19 None)[0 := Some 3]],
      neurons = [(0, processor 0 [1, 2, 3]), (1, processor 1 [0, 2, 3]),
                 (2, processor 2 [0, 1, 3]), (3, processor 3 [0, 1, 2])],
      network = \<lparr>nodes = [(0, Some ''alice''), (1, Some ''alice''), (2, Some ''alice''),
                          (3, Some ''alice'')],
                  edges = [(1, 0), (2, 0), (2, 1), (3, 0), (3, 1), (3, 2)]\<rparr>,
      consciousness_level = 0, emergence_patterns = []\<rparr>"
proof -
  have r: "py_index (grid row3) 3 = Inr (replicate 19 None)"
    by (simp add: row3_eval py_index_def norm_index_def)
  have c: "py_index (replicate 19 (None :: nat option)) 0 = Inr None"
    by (simp add: py_index_def norm_index_def)
  have l: "connect_loop (neurons row3)
             \<lparr>id_n = length (neurons row3), x_n = 3, y_n = 0, type_n = PROCESSOR,
              processing_power = 5, connections = [], activation = 0, memory_state = 0\<rparr>
             (network row3) 0
           = ([(0, processor 0 [1, 2, 3]), (1, processor 1 [0, 2, 3]), (2, processor 2 [0, 1, 3])],
              processor 3 [0, 1, 2],
              \<lparr>nodes = [(0, Some ''alice''), (1, Some ''alice''), (2, Some ''alice''), (3, None)],
               edges = [(1, 0), (2, 0), (2, 1), (3, 0), (3, 1), (3, 2)]\<rparr>, 3)"
    by (simp add: row3_eval loop_defs numeral_2_eq_2 numeral_3_eq_3)
  have s1: "py_setitem (replicate 19 None) 0 (Some (length (neurons row3)))
            = Inr ((replicate 19 None)[0 := Some 3])"
    by (simp add: row3_eval py_setitem_def norm_index_def numeral_3_eq_3)
  have s2: "py_setitem (grid row3) 3 ((replicate 19 None)[0 := Some 3])
            = Inr ((grid row3)[3 := (replicate 19 None)[0 := Some 3]])"
    by (simp add: row3_eval py_setitem_def norm_index_def)
  show ?thesis
    unfolding placed_def place_neuron_free [OF r c l s1 s2]
    by (simp add: row3_eval add_node_def processor_def)
qed


lemma small_numerals:
  "(2::nat) = Suc (Suc 0)" "(3::nat) = Suc (Suc (Suc 0))" "(4::nat) = Suc (Suc (Suc (Suc 0)))"
  "(5::nat) = Suc (Suc (Suc (Suc (Suc 0))))"
  by (simp_all add: eval_nat_numeral)

lemma row5_eval:
  "row5 =
     \<lparr>size_g = 19,
      grid = (replicate 19 (replicate 19 None))
               [0 := (replicate 19 None)[0 := Some 0],
                1 := (replicate 19 None)[0 := Some 1],
                2 := (replicate 19 None)[0 := Some 2],
                3 := (replicate 19 None)[0 := Some 3],
                4 := (replicate 19 None)[0 := Some 4]],
      neurons = [(0, processor 0 [1, 2, 3, 4]), (1, processor 1 [0, 2, 3, 4]),
                 (2, processor 2 [0, 1, 3, 4]), (3, processor 3 [0, 1, 2, 4]),
                 (4, processor 4 [0, 1, 2, 3])],
      network = \<lparr>nodes = [(0, Some ''alice''), (1, Some ''alice''), (2, Some ''alice''),
                          (3, Some ''alice''), (4, Some ''alice'')],
                  edges = [(1, 0), (2, 0), (2, 1), (3, 0), (3, 1), (3, 2),
                           (4, 0), (4, 1), (4, 2), (4, 3)]\<rparr>,
      consciousness_level = 0, emergence_patterns = []\<rparr>"
proof -
  let ?g = "placed 3 0 row3"
  have r: "py_index (grid ?g) 4 = Inr (replicate 19 None)"
    by (simp add: row4_eval py_index_def norm_index_def)
  have c: "py_index (replicate 19 (None :: nat option)) 0 = Inr None"
    by (simp add: py_index_def norm_index_def)
  have l: "connect_loop (neurons ?g)
             \<lparr>id_n = length (neurons ?g), x_n = 4, y_n = 0, type_n = PROCESSOR,
              processing_power = 5, connections = [], activation = 0, memory_state = 0\<rparr>
             (network ?g) 0
           = ([(0, processor 0 [1, 2, 3, 4]), (1, processor 1 [0, 2, 3, 4]),
               (2, processor 2 [0, 1, 3, 4]), (3, processor 3 [0, 1, 2, 4])],
              processor 4 [0, 1, 2, 3],
              \<lparr>nodes = [(0, Some ''alice''), (1, Some ''alice''), (2, Some ''alice''),
                        (3, Some ''alice''), (4, None)],
               edges = [(1, 0), (2, 0), (2, 1), (3, 0), (3, 1), (3, 2),
                        (4, 0), (4, 1), (4, 2), (4, 3)]\<rparr>, 4)"
    by (simp add: row4_eval loop_defs small_numerals)
  have s1: "py_setitem (replicate 19 None) 0 (Some (length (neurons ?g)))
            = Inr ((replicate 19 None)[0 := Some 4])"
    by (simp add: row4_eval py_setitem_def norm_index_def small_numerals)
  have s2: "py_setitem (grid ?g) 4 ((replicate 19 None)[0 := Some 4])
            = Inr ((grid ?g)[4 := (replicate 19 None)[0 := Some 4]])"
    by (simp add: row4_eval py_setitem_def norm_index_def)
  show ?thesis
    unfolding row5_def placed_def [of 4 0] place_neuron_free [OF r c l s1 s2]
    by (simp add: row4_eval add_node_def processor_def)
qed

lemma row6_eval:
  "place_neuron 5 0 PROCESSOR 5 ''alice'' row5 = Inr (Some neuron6, row6)
   \<and> neurons row6 =
       [(0, processor 0 [1, 2, 3, 4, 5]), (1, processor 1 [0, 2, 3, 4, 5]),
        (2, processor 2 [0, 1, 3, 4, 5]), (3, processor 3 [0, 1, 2, 4, 5]),
        (4, processor 4 [0, 1, 2, 3]), (5, neuron6)]"
proof -
  have r: "py_index (grid row5) 5 = Inr (replicate 19 None)"
    by (simp add: row5_eval py_index_def norm_index_def)
  have c: "py_index (replicate 19 (None :: nat option)) 0 = Inr None"
    by (simp add: py_index_def norm_index_def)
  have l: "connect_loop (neurons row5)
             \<lparr>id_n = length (neurons row5), x_n = 5, y_n = 0, type_n = PROCESSOR,
              processing_power = 5, connections = [], activation = 0, memory_state = 0\<rparr>
             (network row5) 0
           = ([(0, processor 0 [1, 2, 3, 4, 5]), (1, processor 1 [0, 2, 3, 4, 5]),
               (2, processor 2 [0, 1, 3, 4, 5]), (3, processor 3 [0, 1, 2, 4, 5]),
               (4, processor 4 [0, 1, 2, 3])],
              neuron6,
              \<lparr>nodes = [(0, Some ''alice''), (1, Some ''alice''), (2, Some ''alice''),
                        (3, Some ''alice''), (4, Some ''alice''), (5, None)],
               edges = [(1, 0), (2, 0), (2, 1), (3, 0), (3, 1), (3, 2),
                        (4, 0), (4, 1), (4, 2), (4, 3), (5, 0), (5, 1), (5, 2), (5, 3)]\<rparr>, 4)"
    by (simp add: row5_eval neuron6_def loop_defs small_numerals)
  have s1: "py_setitem (replicate 19 None) 0 (Some (length (neurons row5)))
            = Inr ((replicate 19 None)[0 := Some 5])"
    by (simp add: row5_eval py_setitem_def norm_index_def small_numerals)
  have s2: "py_setitem (grid row5) 5 ((replicate 19 None)[0 := Some 5])
            = Inr ((grid row5)[5 := (replicate 19 None)[0 := Some 5]])"
    by (simp add: row5_eval py_setitem_def norm_index_def)
  have len: "length (neurons row5) = 5" by (simp add: row5_eval)
  note p = place_neuron_free [OF r c l s1 s2, where pid = "''alice''", unfolded len]
  have r6: "row6 = row5\<lparr>neurons := dict_set [(0, processor 0 [1, 2, 3, 4, 5]),
             (1, processor 1 [0, 2, 3, 4, 5]), (2, processor 2 [0, 1, 3, 4, 5]),
             (3, processor 3 [0, 1, 2, 4, 5]), (4, processor 4 [0, 1, 2, 3])] 5 neuron6,
           grid := (grid row5)[5 := (replicate 19 None)[0 := Some 5]],
           network := add_node 5 ''alice''
              \<lparr>nodes = [(0, Some ''alice''), (1, Some ''alice''), (2, Some ''alice''),
                        (3, Some ''alice''), (4, Some ''alice''), (5, None)],
               edges = [(1, 0), (2, 0), (2, 1), (3, 0), (3, 1), (3, 2),
                        (4, 0), (4, 1), (4, 2), (4, 3), (5, 0), (5, 1), (5, 2), (5, 3)]\<rparr>\<rparr>"
    unfolding row6_def placed_def p by simp
  have pl: "place_neuron 5 0 PROCESSOR 5 ''alice'' row5 = Inr (Some neuron6, row6)"
    unfolding r6 by (rule p)
  have "neurons row6 =
       [(0, processor 0 [1, 2, 3, 4, 5]), (1, processor 1 [0, 2, 3, 4, 5]),
        (2, processor 2 [0, 1, 3, 4, 5]), (3, processor 3 [0, 1, 2, 4, 5]),
        (4, processor 4 [0, 1, 2, 3]), (5, neuron6)]"
    unfolding r6 by simp
  with pl show ?thesis by simp
qed

lemma reachable_grid_placed:
  "reachable_grid lib g \<Longrightarrow> reachable_grid lib (placed x y g)"
  by (auto simp: placed_def split: sum.splits intro: reachable_grid.place)

lemma reachable_grid_row5: "reachable_grid networkx_ref row5"
  unfolding row5_def row3_def by (intro reachable_grid_placed reachable_grid.init)


subsection \<open>No reachable session has a winner\<close>





section \<open>The claims\<close>

subsection \<open>C1: the consciousness level stays in the unit interval\<close>

text \<open>
  C1. In every session reachable through the constructor, \<^verbatim>\<open>add_player\<close> and
  \<^verbatim>\<open>play_turn\<close>, \<^verbatim>\<open>calculate_consciousness_level\<close> returns (it does not raise) a value
  in \<open>[0, 1]\<close>, and the cached \<^verbatim>\<open>consciousness_level\<close> is in \<open>[0, 1]\<close> after any further
  \<^verbatim>\<open>play_turn\<close>. The library functions are only assumed to stay in their documented
  range \<open>[0, 1]\<close>. Floats are read as reals.
\<close>

theorem consciousness_level_in_unit_interval:
  assumes "nx_contract lib" and "reachable lib s"
  shows "(\<exists>c g'. calculate_consciousness_level lib (grid_G s) = Inr (c, g') \<and> 0 \<le> c \<and> c \<le> 1)
         \<and> 0 \<le> consciousness_level (grid_G (snd (play_turn lib pid mv s)))
         \<and> consciousness_level (grid_G (snd (play_turn lib pid mv s))) \<le> 1"
proof -
  have "quiet (grid_G s)"
    using assms by (intro reachable_grid_quiet reachable_grid_of_session)
  from calculate_quiet [OF assms(1) this]
  have a: "\<exists>c g'. calculate_consciousness_level lib (grid_G s) = Inr (c, g') \<and> 0 \<le> c \<and> c \<le> 1"
    by blast
  have "reachable lib (snd (play_turn lib pid mv s))"
    using assms(2) by (rule reachable.turn)
  then have "quiet (grid_G (snd (play_turn lib pid mv s)))"
    using assms(1) by (intro reachable_grid_quiet reachable_grid_of_session)
  with a show ?thesis by (simp add: quiet_def)
qed

theorem consciousness_level_in_unit_interval_witness:
  "nx_contract networkx_ref \<and> reachable networkx_ref session5
   \<and> (\<exists>c g'. calculate_consciousness_level networkx_ref (grid_G session5) = Inr (c, g')
              \<and> 0 \<le> c \<and> c \<le> 1)
   \<and> 0 \<le> consciousness_level
            (grid_G (snd (play_turn networkx_ref ''alice'' (processor_at 5) session5)))
   \<and> consciousness_level
        (grid_G (snd (play_turn networkx_ref ''alice'' (processor_at 5) session5))) \<le> 1"
  using consciousness_level_in_unit_interval
          [OF nx_contract_ref reachable_session5, of "''alice''" "processor_at 5"]
        nx_contract_ref reachable_session5
  by simp

subsection \<open>C2: synchronization patterns\<close>

text \<open>
  C2 says that the detector returns a synchronization pattern for every group of at
  least three neurons with close activations. The code builds these groups in
  \<^verbatim>\<open>sync_groups\<close> and then returns \<^verbatim>\<open>patterns\<close> without them. With three processors
  placed in a row, all at activation 0, the three groups exist, each of size 3 and of
  strength 0, and the detector returns the empty list.
\<close>

theorem synchronization_groups_dropped:
  "sync_groups (neurons row3) =
     [\<lparr>type_p = Synchronization, nodes_p = [0, 1, 2], strength = 0\<rparr>,
      \<lparr>type_p = Synchronization, nodes_p = [1, 0, 2], strength = 0\<rparr>,
      \<lparr>type_p = Synchronization, nodes_p = [2, 0, 1], strength = 0\<rparr>]
   \<and> detect_consciousness_patterns networkx_ref row3 = []"
  by (simp add: row3_eval sync_groups_def sync_group_def np_mean_def
        detect_consciousness_patterns_def networkx_ref_def hierarchy_patterns_def
        attractor_patterns_def)

subsection \<open>C3: coordinates outside the grid\<close>

text \<open>
  C3 as the spec states it: a move with coordinates outside the grid, such as \<open>x = -1\<close>,
  is rejected by validation and leaves the session untouched. The code has no validation:
  \<open>x = -1\<close> is a list index from the end, so on a fresh session the move is accepted, the
  call returns \<^verbatim>\<open>continue\<close> with turn 1, and the neuron lands in row 18.
\<close>

theorem negative_coordinate_is_placed:
  "fst (play_turn networkx_ref ''alice'' (move_at (- 1) 0 ''sensor'') session0)
     = Inr (Continue 0 [] 1)
   \<and> grid (grid_G (snd (play_turn networkx_ref ''alice'' (move_at (- 1) 0 ''sensor'') session0)))
       ! 18 ! 0 = Some 0
   \<and> grid (grid_G session0) ! 18 ! 0 = None"
  by (simp add: run_defs)

text \<open>
  C3, amended. On a square grid of side \<open>n\<close>, every move with \<open>x\<close> or \<open>y\<close> below \<open>-n\<close>
  or at least \<open>n\<close> leaves the session (grid, registry, graph, players, turn counter and
  winner) unchanged; when no winner is set and the type name is known, \<^verbatim>\<open>play_turn\<close>
  raises \<^verbatim>\<open>IndexError\<close> at the read of the cell, before anything is written.
\<close>

theorem out_of_range_move_raises:
  assumes "wf_grid (grid_G s)"
      and "x_m mv < - int (size_g (grid_G s)) \<or> int (size_g (grid_G s)) \<le> x_m mv
           \<or> y_m mv < - int (size_g (grid_G s)) \<or> int (size_g (grid_G s)) \<le> y_m mv"
  shows "snd (play_turn lib pid mv s) = s
         \<and> (\<not> truthy (winner s) \<and> NeuronType_getitem (upper (type_m mv)) = Inr t
              \<longrightarrow> fst (play_turn lib pid mv s) = Inl IndexError)"
  using place_neuron_out_of_bounds [OF assms]
  by (simp add: play_turn_def split: sum.splits)

theorem out_of_range_move_raises_witness:
  "wf_grid (grid_G session0) \<and> int (size_g (grid_G session0)) \<le> x_m (move_at 19 0 ''sensor'')
   \<and> \<not> truthy (winner session0)
   \<and> NeuronType_getitem (upper (type_m (move_at 19 0 ''sensor''))) = Inr SENSOR
   \<and> play_turn networkx_ref ''alice'' (move_at 19 0 ''sensor'') session0 = (Inl IndexError, session0)"
proof -
  have h: "wf_grid (grid_G session0)" "int (size_g (grid_G session0)) \<le> x_m (move_at 19 0 ''sensor'')"
    by (simp_all add: wf_grid_def session0_def add_player_def Game_init_def move_at_def
          ConsciousnessGrid_init_def list_all_iff)
  have k: "\<not> truthy (winner session0)"
    "NeuronType_getitem (upper (type_m (move_at 19 0 ''sensor''))) = Inr SENSOR"
    by (simp_all add: session0_def add_player_def Game_init_def move_at_def
          upper_def upper_char_def NeuronType_getitem_def)
  from out_of_range_move_raises
         [of session0 "move_at 19 0 ''sensor''" networkx_ref "''alice''" SENSOR] h k
  have "snd (play_turn networkx_ref ''alice'' (move_at 19 0 ''sensor'') session0) = session0"
    "fst (play_turn networkx_ref ''alice'' (move_at 19 0 ''sensor'') session0) = Inl IndexError"
    by simp_all
  then have "play_turn networkx_ref ''alice'' (move_at 19 0 ''sensor'') session0
             = (Inl IndexError, session0)"
    by (simp add: prod_eq_iff)
  with h k show ?thesis by simp
qed

subsection \<open>C4: unknown neuron types\<close>

text \<open>
  C4 as the spec states it: a type name outside the five is turned into a rejected-move
  result. In the code the enum lookup raises: the move \<open>quark\<close> on a fresh session ends
  the call with \<^verbatim>\<open>KeyError\<close>, and no result is returned.
\<close>

theorem unknown_type_is_not_a_result:
  "play_turn networkx_ref ''alice'' (move_at 0 0 ''quark'') session0 = (Inl KeyError, session0)"
  by (simp add: run_defs)

text \<open>
  C4, amended. Every move whose ASCII type name, upper-cased, is none of the five member
  names leaves the session unchanged, no placement being attempted; while no winner is
  set, \<^verbatim>\<open>play_turn\<close> raises \<^verbatim>\<open>KeyError\<close> from the enum lookup and returns no result.
\<close>

theorem unknown_type_raises:
  assumes "ascii (type_m mv)"
      and "upper (type_m mv) \<notin> {''SENSOR'', ''PROCESSOR'', ''MEMORY'', ''CONNECTOR'', ''OSCILLATOR''}"
  shows "snd (play_turn lib pid mv s) = s
         \<and> (\<not> truthy (winner s) \<longrightarrow> fst (play_turn lib pid mv s) = Inl KeyError)"
  using assms by (simp add: play_turn_def NeuronType_getitem_def)

theorem unknown_type_raises_witness:
  "ascii (type_m (move_at 0 0 ''Quark''))
   \<and> upper (type_m (move_at 0 0 ''Quark''))
       \<notin> {''SENSOR'', ''PROCESSOR'', ''MEMORY'', ''CONNECTOR'', ''OSCILLATOR''}
   \<and> \<not> truthy (winner session1)
   \<and> play_turn networkx_ref ''alice'' (move_at 0 0 ''Quark'') session1 = (Inl KeyError, session1)"
proof -
  have h: "ascii (type_m (move_at 0 0 ''Quark''))"
    "upper (type_m (move_at 0 0 ''Quark''))
       \<notin> {''SENSOR'', ''PROCESSOR'', ''MEMORY'', ''CONNECTOR'', ''OSCILLATOR''}"
    by (simp_all add: ascii_def move_at_def upper_def upper_char_def)
  have k: "\<not> truthy (winner session1)"
    by (simp add: session1_eval)
  from unknown_type_raises [OF h, of networkx_ref "''alice''" session1] k
  have "snd (play_turn networkx_ref ''alice'' (move_at 0 0 ''Quark'') session1) = session1"
    "fst (play_turn networkx_ref ''alice'' (move_at 0 0 ''Quark'') session1) = Inl KeyError"
    by simp_all
  then have "play_turn networkx_ref ''alice'' (move_at 0 0 ''Quark'') session1
             = (Inl KeyError, session1)"
    by (simp add: prod_eq_iff)
  with h k show ?thesis by simp
qed

subsection \<open>C5: an occupied cell\<close>

text \<open>
  C5. For a placement at in-bounds coordinates onto an occupied cell, \<^verbatim>\<open>place_neuron\<close>
  returns \<^verbatim>\<open>None\<close> and the grid object (cells, registry with every connection list,
  graph) is unchanged; \<^verbatim>\<open>play_turn\<close> with such a move leaves the whole session, turn
  counter and \<^verbatim>\<open>neurons_placed\<close> included, unchanged, and when it gets as far as the
  placement (no winner, known type) it returns \<^verbatim>\<open>invalid_move\<close>.
\<close>

theorem occupied_cell_rejected:
  assumes "0 \<le> x_m mv" "x_m mv < int (length (grid (grid_G s)))"
      and "0 \<le> y_m mv" "y_m mv < int (length (grid (grid_G s) ! nat (x_m mv)))"
      and "grid (grid_G s) ! nat (x_m mv) ! nat (y_m mv) \<noteq> None"
  shows "place_neuron (x_m mv) (y_m mv) t pw pid (grid_G s) = Inr (None, grid_G s)
         \<and> snd (play_turn lib pid mv s) = s
         \<and> (\<not> truthy (winner s) \<and> NeuronType_getitem (upper (type_m mv)) = Inr t'
              \<longrightarrow> fst (play_turn lib pid mv s) = Inr (InvalidMove ''position_occupied''))"
proof -
  have p: "place_neuron (x_m mv) (y_m mv) t'' pw' pid (grid_G s) = Inr (None, grid_G s)"
    for t'' pw'
    using assms by (rule place_neuron_occupied)
  show ?thesis
    by (simp add: p play_turn_def split: sum.splits)
qed

theorem occupied_cell_rejected_witness:
  "grid (grid_G session1) ! nat (x_m (move_at 0 0 ''memory'')) ! nat (y_m (move_at 0 0 ''memory''))
     = Some 0
   \<and> \<not> truthy (winner session1)
   \<and> NeuronType_getitem (upper (type_m (move_at 0 0 ''memory''))) = Inr MEMORY
   \<and> place_neuron 0 0 MEMORY 5 ''alice'' (grid_G session1) = Inr (None, grid_G session1)
   \<and> play_turn networkx_ref ''alice'' (move_at 0 0 ''memory'') session1
       = (Inr (InvalidMove ''position_occupied''), session1)"
proof -
  have h: "0 \<le> x_m (move_at 0 0 ''memory'')"
    "x_m (move_at 0 0 ''memory'') < int (length (grid (grid_G session1)))"
    "0 \<le> y_m (move_at 0 0 ''memory'')"
    "y_m (move_at 0 0 ''memory'')
       < int (length (grid (grid_G session1) ! nat (x_m (move_at 0 0 ''memory''))))"
    "grid (grid_G session1) ! nat (x_m (move_at 0 0 ''memory'')) ! nat (y_m (move_at 0 0 ''memory''))
       \<noteq> None"
    by (simp_all add: session1_eval move_at_def)
  have k: "grid (grid_G session1) ! nat (x_m (move_at 0 0 ''memory''))
             ! nat (y_m (move_at 0 0 ''memory'')) = Some 0"
    "\<not> truthy (winner session1)"
    "NeuronType_getitem (upper (type_m (move_at 0 0 ''memory''))) = Inr MEMORY"
    by (simp_all add: session1_eval move_at_def upper_def upper_char_def NeuronType_getitem_def)
  from occupied_cell_rejected [OF h, of MEMORY 5 "''alice''" networkx_ref MEMORY] k(2,3)
  have "place_neuron (x_m (move_at 0 0 ''memory'')) (y_m (move_at 0 0 ''memory'')) MEMORY 5
          ''alice'' (grid_G session1) = Inr (None, grid_G session1)"
    "snd (play_turn networkx_ref ''alice'' (move_at 0 0 ''memory'') session1) = session1"
    "fst (play_turn networkx_ref ''alice'' (move_at 0 0 ''memory'') session1)
       = Inr (InvalidMove ''position_occupied'')"
    by simp_all
  then have "place_neuron 0 0 MEMORY 5 ''alice'' (grid_G session1) = Inr (None, grid_G session1)"
    "play_turn networkx_ref ''alice'' (move_at 0 0 ''memory'') session1
       = (Inr (InvalidMove ''position_occupied''), session1)"
    by (simp_all add: prod_eq_iff move_at_def)
  with k show ?thesis by simp
qed

subsection \<open>C6: connections after a placement\<close>

text \<open>
  C6. On a grid reached through the constructor and the methods of the class, after
  every successful \<^verbatim>\<open>place_neuron\<close> the new neuron, which is the registry entry under
  its id, has at most 4 connections, and for every neuron \<open>a\<close> of the registry and every
  \<open>b\<close> in its connection list, \<open>b\<close> is a neuron of the registry with \<open>a\<close> in its list
  and the graph has the edge between \<open>a\<close> and \<open>b\<close>.
\<close>

theorem placement_connections_mutual:
  assumes "reachable_grid lib g" and "place_neuron x y t pw pid g = Inr (Some n, g')"
  shows "length (connections n) \<le> 4
         \<and> map_of (neurons g') (id_n n) = Some n
         \<and> (\<forall>a na b. map_of (neurons g') a = Some na \<and> b \<in> set (connections na) \<longrightarrow>
               (\<exists>nb. map_of (neurons g') b = Some nb \<and> a \<in> set (connections nb))
               \<and> has_edge (network g') a b)"
proof -
  from reachable_grid_mutual [OF assms(1)] have "keys_ok g" "symmetric g" by simp_all
  from place_neuron_preserves [OF this assms(2)]
  have p: "symmetric g'" "length (connections n) \<le> 4" "id_n n = length (neurons g)"
    "map_of (neurons g') (length (neurons g)) = Some n"
    by simp_all
  from p(3,4) have "map_of (neurons g') (id_n n) = Some n" by simp
  with p(1,2) show ?thesis unfolding symmetric_def by (intro conjI)
qed

theorem placement_connections_mutual_witness:
  "reachable_grid networkx_ref (grid_G session1)
   \<and> place_neuron 1 1 MEMORY 7 ''alice'' (grid_G session1) = Inr (Some neuron2, grid2)
   \<and> length (connections neuron2) \<le> 4
   \<and> map_of (neurons grid2) 1 = Some neuron2
   \<and> (\<exists>nb. map_of (neurons grid2) 0 = Some nb \<and> 1 \<in> set (connections nb))
   \<and> has_edge (network grid2) 1 0"
proof -
  have p: "place_neuron 1 1 MEMORY 7 ''alice'' (grid_G session1) = Inr (Some neuron2, grid2)"
    by (simp add: session1_eval neuron2_def grid2_def run_defs)
  from placement_connections_mutual [OF reachable_grid_session1 p]
  have c: "length (connections neuron2) \<le> 4"
    "map_of (neurons grid2) (id_n neuron2) = Some neuron2"
    "\<And>a na b. map_of (neurons grid2) a = Some na \<Longrightarrow> b \<in> set (connections na) \<Longrightarrow>
       (\<exists>nb. map_of (neurons grid2) b = Some nb \<and> a \<in> set (connections nb))
       \<and> has_edge (network grid2) a b"
    by blast+
  have i: "id_n neuron2 = 1" "0 \<in> set (connections neuron2)"
    by (simp_all add: neuron2_def)
  from c(2) i(1) have m: "map_of (neurons grid2) 1 = Some neuron2" by simp
  from c(3) [OF m i(2)] c(1) m reachable_grid_session1 p show ?thesis by blast
qed

subsection \<open>C7: the game after a win\<close>



subsection \<open>C8: what the activation step depends on\<close>



subsection \<open>C9: what the export determines\<close>

text \<open>
  C9 as the spec states it: a session rebuilt from the exported snapshot alone has the same
  neuron attributes, nothing of a neuron lying outside the snapshot. The snapshot has no
  \<^verbatim>\<open>processing_power\<close> (nor \<^verbatim>\<open>memory_state\<close>): the session in which \<open>alice\<close> placed a
  sensor of power 5 at \<open>(0, 0)\<close> and the one in which the sensor has power 7 export the
  same snapshot.
\<close>

theorem export_hides_processing_power:
  "get_game_state networkx_ref session1 = get_game_state networkx_ref session1_strong
   \<and> map (\<lambda>(k, n). processing_power n) (neurons (grid_G session1)) = [5]
   \<and> map (\<lambda>(k, n). processing_power n) (neurons (grid_G session1_strong)) = [7]"
  by (simp add: session1_eval session1_strong_eval get_game_state_def export_neuron_def)

text \<open>
  C9, amended. The exported snapshot determines the grid occupancy and, for every neuron
  in registry order, its key, x, y, type, activation and connection list: two sessions
  with equal snapshots agree on all of these. Processing power and memory state are not
  part of the snapshot.
\<close>

theorem export_determines_exported_fields:
  assumes "get_game_state lib s1 = get_game_state lib s2"
  shows "map (map (\<lambda>cell. cell \<noteq> None)) (grid (grid_G s1))
           = map (map (\<lambda>cell. cell \<noteq> None)) (grid (grid_G s2))
         \<and> map (\<lambda>(k, n). (k, x_n n, y_n n, type_n n, activation n, connections n))
               (neurons (grid_G s1))
           = map (\<lambda>(k, n). (k, x_n n, y_n n, type_n n, activation n, connections n))
               (neurons (grid_G s2))"
proof -
  from assms have g: "grid_state (get_game_state lib s1) = grid_state (get_game_state lib s2)"
    and n: "neurons_e (get_game_state lib s1) = neurons_e (get_game_state lib s2)"
    by simp_all
  from g have "map (map (\<lambda>cell. cell \<noteq> None)) (grid (grid_G s1))
           = map (map (\<lambda>cell. cell \<noteq> None)) (grid (grid_G s2))"
    unfolding get_game_state_def GameState.simps by (rule occupancy_of_bits)
  moreover from n have "map (\<lambda>(k, n). (k, x_n n, y_n n, type_n n, activation n, connections n))
               (neurons (grid_G s1))
           = map (\<lambda>(k, n). (k, x_n n, y_n n, type_n n, activation n, connections n))
               (neurons (grid_G s2))"
    unfolding get_game_state_def GameState.simps
    by (rule map_eq_through) (auto dest: export_neuron_inj)
  ultimately show ?thesis by simp
qed

theorem export_determines_exported_fields_witness:
  "get_game_state networkx_ref session1 = get_game_state networkx_ref session1_strong
   \<and> map (map (\<lambda>cell. cell \<noteq> None)) (grid (grid_G session1))
       = map (map (\<lambda>cell. cell \<noteq> None)) (grid (grid_G session1_strong))
   \<and> map (\<lambda>(k, n). (k, x_n n, y_n n, type_n n, activation n, connections n))
         (neurons (grid_G session1))
       = map (\<lambda>(k, n). (k, x_n n, y_n n, type_n n, activation n, connections n))
         (neurons (grid_G session1_strong))"
proof -
  have e: "get_game_state networkx_ref session1 = get_game_state networkx_ref session1_strong"
    by (simp add: session1_eval session1_strong_eval get_game_state_def export_neuron_def)
  from export_determines_exported_fields [OF e] e show ?thesis by blast
qed

subsection \<open>C10: the cap and the existing neurons\<close>

text \<open>
  C10 as it is stated ends with: an existing neuron's degree grows without bound over
  successive placements. It does not: in every reachable grid the connections of a neuron
  are distinct neurons at distinct grid positions within distance 5 of it, and there are
  80 such positions, so no reachable grid has a neuron with 81 connections.
\<close>

theorem degree_does_not_grow_without_bound:
  "\<not> (\<forall>N. \<exists>g. reachable_grid networkx_ref g
              \<and> (\<exists>p\<in>set (neurons g). N \<le> length (connections (snd p))))"
proof
  assume "\<forall>N. \<exists>g. reachable_grid networkx_ref g
              \<and> (\<exists>p\<in>set (neurons g). N \<le> length (connections (snd p)))"
  then obtain g p where g: "reachable_grid networkx_ref g" "p \<in> set (neurons g)"
    "81 \<le> length (connections (snd p))"
    by blast
  from g(1) have "geo g" by (rule reachable_grid_geo)
  moreover from g(2) have "(fst p, snd p) \<in> set (neurons g)" by simp
  ultimately have "length (connections (snd p)) \<le> 80" by (rule degree_le_80)
  with g(3) show False by simp
qed

text \<open>
  C10, amended. The cap of 4 constrains only the new neuron. In a reachable grid, for
  every registry entry \<open>i\<close> whose neuron is within Euclidean distance 5.0 of a successful
  placement and is met by the loop before 4 neurons in reach have come by, the placement
  appends the new id to that neuron's connection list, however long the list already is;
  the new neuron itself gets at most 4 connections. An existing neuron's degree can so
  exceed 4, and it stays at or below 80.
\<close>

theorem cap_binds_only_the_new_neuron:
  assumes "reachable_grid lib g"
      and "place_neuron x y t pw pid g = Inr (Some n, g')"
      and "i < length (neurons g)" and "neurons g ! i = (k, e)"
      and "within_reach x y e"
      and "eligible_before x y (neurons g) i < 4"
  shows "neurons g' ! i = (k, e\<lparr>connections := connections e @ [id_n n]\<rparr>)
         \<and> length (connections n) \<le> 4
         \<and> length (connections e) + 1 \<le> 80"
proof -
  let ?n = "length (neurons g)"
  let ?nr = "\<lparr>id_n = ?n, x_n = x, y_n = y, type_n = t, processing_power = pw,
              connections = [], activation = 0, memory_state = 0\<rparr>"
  from assms(1) have geo: "geo g" by (rule reachable_grid_geo)
  then have ok: "keys_ok g" by (simp add: geo_def)
  from place_neuron_SomeD [OF assms(2)] obtain regs' G' m' where
    loop: "connect_loop (neurons g) ?nr (network g) 0 = (regs', n, G', m')"
    and regs: "neurons g' = dict_set regs' ?n n"
    by blast
  have keys': "map fst regs' = map fst (neurons g)"
    using loop by (rule connect_loop_keys)
  have "?n \<notin> fst ` set (neurons g)" using ok by (rule keys_ok_fresh)
  then have "?n \<notin> fst ` set regs'" using keys' by (metis set_map)
  with regs have regs_app: "neurons g' = regs' @ [(?n, n)]" by (simp add: dict_set_fresh)
  have lens: "length regs' = ?n" using keys' by (metis length_map)
  have ids: "\<forall>(k, e)\<in>set (neurons g). id_n e = k"
    using geoD(1) [OF geo] by auto
  from connect_loop_neuron [OF loop] have idn: "id_n n = ?n" and len: "length (connections n) \<le> 4"
    by auto
  have "regs' ! i = (k, e\<lparr>connections := connections e @ [id_n ?nr]\<rparr>)"
    using loop keys_ok_distinct [OF ok] ids _ assms(3,4)
  proof (rule connect_loop_reaches)
    show "set (connections ?nr) \<inter> fst ` set (neurons g) = {}" by simp
    show "within_reach (x_n ?nr) (y_n ?nr) e" using assms(5) by simp
    show "0 + eligible_before (x_n ?nr) (y_n ?nr) (neurons g) i < 4" using assms(6) by simp
  qed
  with regs_app lens assms(3) idn
  have entry: "neurons g' ! i = (k, e\<lparr>connections := connections e @ [id_n n]\<rparr>)"
    by (simp add: nth_append)
  have "reachable_grid lib g'" using assms(1,2) by (rule reachable_grid.place)
  then have geo': "geo g'" by (rule reachable_grid_geo)
  from regs_app lens assms(3) have "i < length (neurons g')" by simp
  then have "neurons g' ! i \<in> set (neurons g')" by (rule nth_mem)
  with entry have "(k, e\<lparr>connections := connections e @ [id_n n]\<rparr>) \<in> set (neurons g')" by simp
  from degree_le_80 [OF geo' this] have "length (connections e) + 1 \<le> 80" by simp
  with entry len show ?thesis by simp
qed

theorem cap_binds_only_the_new_neuron_witness:
  "reachable_grid networkx_ref row5
   \<and> place_neuron 5 0 PROCESSOR 5 ''alice'' row5 = Inr (Some neuron6, row6)
   \<and> neurons row5 ! 0 = (0, processor 0 [1, 2, 3, 4])
   \<and> within_reach 5 0 (processor 0 [1, 2, 3, 4])
   \<and> eligible_before 5 0 (neurons row5) 0 < 4
   \<and> length (connections (processor 0 [1, 2, 3, 4])) = 4
   \<and> neurons row6 ! 0 = (0, processor 0 [1, 2, 3, 4, 5])
   \<and> connections neuron6 = [0, 1, 2, 3]"
proof -
  have h: "0 < length (neurons row5)" "neurons row5 ! 0 = (0, processor 0 [1, 2, 3, 4])"
    "within_reach 5 0 (processor 0 [1, 2, 3, 4])" "eligible_before 5 0 (neurons row5) 0 < 4"
    by (simp_all add: row5_eval within_reach_iff eligible_before_def processor_def)
  from row6_eval have p: "place_neuron 5 0 PROCESSOR 5 ''alice'' row5 = Inr (Some neuron6, row6)"
    by simp
  from cap_binds_only_the_new_neuron [OF reachable_grid_row5 p h]
  have "neurons row6 ! 0 = (0, (processor 0 [1, 2, 3, 4])
                               \<lparr>connections := connections (processor 0 [1, 2, 3, 4]) @ [id_n neuron6]\<rparr>)"
    by simp
  then have "neurons row6 ! 0 = (0, processor 0 [1, 2, 3, 4, 5])"
    by (simp add: processor_def neuron6_def)
  with reachable_grid_row5 p h show ?thesis
    by (simp add: processor_def neuron6_def)
qed

end
